theory Spec2Isabelle
  imports Complex_Main "HOL-Library.AList" "HOL-Library.Code_Target_Nat"
begin

section \<open>Data model\<close>

text \<open>
  Python strings are sequences of Unicode code points.  A code point is a natural
  number, a string a list of code points; \<open>u\<close> turns a literal into such a list.
\<close>

type_synonym uchar = nat
type_synonym ustring = "nat list"

definition u :: "string \<Rightarrow> ustring" where
  "u s = map of_char s"

definition SP :: uchar where
  "SP = 32"

definition NL :: uchar where
  "NL = 10"

text \<open>
  The exceptions the code can raise.  The three assertions of the module and the
  built-in errors of the operations it uses are separate values.
\<close>

datatype error =
    GapMapped
  | SourceMismatch
  | PathNotAtTop
  | OutputLost
  | IndexError
  | ValueError
  | KeyError
  | TypeError
  | AttributeError
  | StopIteration

text \<open>
  \<open>TextEquivType\<close>: the text result of an element.  \<open>conf\<close> and \<open>index\<close> are optional
  attributes (\<open>None\<close> when unset); the implicit whitespace elements made during line
  extraction carry \<open>index = -1\<close>.
\<close>

record textequiv =
  Unicode :: ustring
  conf :: "real option"
  index :: "int option"

definition TextEquivType :: "ustring \<Rightarrow> real option \<Rightarrow> textequiv" where
  "TextEquivType s c = \<lparr>Unicode = s, conf = c, index = None\<rparr>"

text \<open>
  The \<open>points\<close> attribute of a \<open>Coords\<close> element is a string of integer pairs
  \<open>x,y x,y ...\<close>, the corners of a polygon; it is a list of pairs of integers here.
  \<open>xywh_from_points\<close> and \<open>points_from_xywh\<close> belong to the OCR-D utilities, which the
  module imports.  The first reads the bounding box of a polygon (and fails with
  \<open>ValueError\<close> on a string without numbers); its result is a dictionary with the keys
  \<open>x\<close>, \<open>y\<close>, \<open>w\<close> and \<open>h\<close>, whose values become floats once the code has scaled
  them.  The second writes a box as the four corners of its rectangle, every number
  formatted with \<open>%i\<close>, which cuts off the fraction.  Floats are idealised as reals.
\<close>

record xywh =
  box_x :: real
  box_y :: real
  box_w :: real
  box_h :: real

definition xywh_from_points :: "(int \<times> int) list \<Rightarrow> error + xywh" where
  "xywh_from_points points =
     (case points of
        [] \<Rightarrow> Inl ValueError
      | p # ps \<Rightarrow>
          (let minx = fold min (map fst ps) (fst p);
               maxx = fold max (map fst ps) (fst p);
               miny = fold min (map snd ps) (snd p);
               maxy = fold max (map snd ps) (snd p)
           in Inr \<lparr>box_x = of_int minx, box_y = of_int miny,
                   box_w = of_int (maxx - minx), box_h = of_int (maxy - miny)\<rparr>))"

definition int_of_float :: "real \<Rightarrow> int" where
  "int_of_float r = (if 0 \<le> r then \<lfloor>r\<rfloor> else \<lceil>r\<rceil>)"

definition points_from_xywh :: "xywh \<Rightarrow> (int \<times> int) list" where
  "points_from_xywh box =
     [(int_of_float (box_x box), int_of_float (box_y box)),
      (int_of_float (box_x box + box_w box), int_of_float (box_y box)),
      (int_of_float (box_x box + box_w box), int_of_float (box_y box + box_h box)),
      (int_of_float (box_x box), int_of_float (box_y box + box_h box))]"

text \<open>
  \<open>WordType\<close>, with the type of the text results and of the glyphs left open: a word
  of the page tree holds them by value, a word in the store used by the resegmenter
  holds references.
\<close>

record ('te, 'g) word =
  word_id :: string
  Coords :: "(int \<times> int) list option"
  language :: "string option"
  TextStyle :: "string option"
  Glyph :: "'g list"
  TextEquiv :: "'te list"

definition WordType :: "string \<Rightarrow> ('te, 'g) word" where
  "WordType i = \<lparr>word_id = i, Coords = None,
     language = None, TextStyle = None, Glyph = [], TextEquiv = []\<rparr>"

text \<open>Truthiness of an optional string attribute: unset and empty are both false.\<close>

fun truthy :: "string option \<Rightarrow> bool" where
  "truthy None = False"
| "truthy (Some s) = (s \<noteq> [])"

section \<open>Splitting a word at a space\<close>

text \<open>\<open>str.index\<close>: the position of the first occurrence, or \<open>ValueError\<close>.\<close>

fun str_index :: "uchar \<Rightarrow> ustring \<Rightarrow> error + nat" where
  "str_index c [] = Inl ValueError"
| "str_index c (d # ds) =
     (if d = c then Inr 0
      else case str_index c ds of Inl e \<Rightarrow> Inl e | Inr n \<Rightarrow> Inr (Suc n))"

definition copy_style :: "('te, 'g) word \<Rightarrow> ('te2, 'g2) word \<Rightarrow> ('te2, 'g2) word" where
  "copy_style word new =
     (let new1 = (if truthy (language word) then new\<lparr>language := language word\<rparr> else new)
      in if truthy (TextStyle word) then new1\<lparr>TextStyle := TextStyle word\<rparr> else new1)"

definition split_word_at_space ::
  "(textequiv, 'g) word \<Rightarrow> error + ((textequiv, 'g) word \<times> (textequiv, 'g) word)" where
  "split_word_at_space word =
     (let prev0 = WordType (word_id word @ ''_l'');
          next0 = WordType (word_id word @ ''_r'')
      in case Coords word of
           None \<Rightarrow> Inl AttributeError
         | Some points \<Rightarrow>
            (case xywh_from_points points of
               Inl e \<Rightarrow> Inl e
             | Inr xywh \<Rightarrow>
                (case TextEquiv word of
                   [] \<Rightarrow> Inl IndexError
                 | textequiv # _ \<Rightarrow>
                    (case str_index SP (Unicode textequiv) of
                       Inl e \<Rightarrow> Inl e
                     | Inr pos \<Rightarrow>
                        (let fract = real pos / real (length (Unicode textequiv));
                             xywh_prev = xywh\<lparr>box_w := box_w xywh * fract\<rparr>;
                             prev1 = prev0\<lparr>Coords := Some (points_from_xywh xywh_prev)\<rparr>;
                             xywh_next = xywh\<lparr>box_x := box_x xywh + box_w xywh * fract,
                                               box_w := box_w xywh * (1 - fract)\<rparr>;
                             next1 = next0\<lparr>Coords := Some (points_from_xywh xywh_next)\<rparr>;
                             prev2 = copy_style word prev1;
                             next2 = copy_style word next1;
                             textequiv_prev =
                               TextEquivType (take pos (Unicode textequiv)) (conf textequiv);
                             textequiv_next =
                               TextEquivType (drop (pos + 1) (Unicode textequiv))
                                 (conf textequiv)
                         in Inr (prev2\<lparr>TextEquiv := [textequiv_prev]\<rparr>,
                                 next2\<lparr>TextEquiv := [textequiv_next]\<rparr>))))))"

section \<open>The aligner: from soft alignment scores to a hard path\<close>

text \<open>
  The soft alignment is a list of vectors: \<open>alignment[j][i]\<close> is the score of output
  position \<open>j\<close> against input position \<open>i\<close>.  Reading outside the list raises
  \<open>IndexError\<close>.  Scores are of any linearly ordered type with an addition and a
  zero, which covers exact arithmetic as well as rounded arithmetic.
\<close>

definition lookup2 :: "'a list list \<Rightarrow> nat \<Rightarrow> nat \<Rightarrow> error + 'a" where
  "lookup2 alignment j i =
     (if j < length alignment
      then (if i < length (alignment ! j) then Inr (alignment ! j ! i) else Inl IndexError)
      else Inl IndexError)"

text \<open>
  The inner loop of the forward pass: move the cursor to the next cell (input
  position first, then output position) until the cell's score exceeds \<open>min_score\<close>
  or the cursor leaves the rectangle at \<open>(i_max, j_max)\<close>.
\<close>

function advance ::
  "('a::linorder) list list \<Rightarrow> nat \<Rightarrow> nat \<Rightarrow> 'a \<Rightarrow> nat \<Rightarrow> nat \<Rightarrow> error + (nat \<times> nat)" where
  "advance alignment i_max j_max min_score i j =
     (if i + 1 = i_max
      then (if j + 1 = j_max then Inr (i + 1, j + 1)
            else (case lookup2 alignment (j + 1) 0 of
                    Inl e \<Rightarrow> Inl e
                  | Inr a \<Rightarrow> if min_score < a then Inr (0, j + 1)
                            else advance alignment i_max j_max min_score 0 (j + 1)))
      else (case lookup2 alignment j (i + 1) of
              Inl e \<Rightarrow> Inl e
            | Inr a \<Rightarrow> if min_score < a then Inr (i + 1, j)
                      else advance alignment i_max j_max min_score (i + 1) j))"
  by pat_completeness auto
termination
proof (relation "measures [\<lambda>(alignment, i_max, j_max, min_score, i, j). length alignment - j,
    \<lambda>(alignment, i_max, j_max, min_score, i, j). length (alignment ! j) - i]")
  show "wf (measures [\<lambda>(alignment, i_max, j_max, min_score, i, j). length alignment - j,
    \<lambda>(alignment :: 'a list list, i_max, j_max, min_score, i, j). length (alignment ! j) - i])"
    by simp
next
  fix alignment :: "'a list list" and i_max j_max :: nat and min_score :: 'a and i j :: nat
    and a :: 'a
  assume "lookup2 alignment (j + 1) 0 = Inr a"
  then have "j + 1 < length alignment"
    by (simp add: lookup2_def split: if_splits)
  then show "((alignment, i_max, j_max, min_score, 0, j + 1),
              (alignment, i_max, j_max, min_score, i, j))
      \<in> measures [\<lambda>(alignment, i_max, j_max, min_score, i, j). length alignment - j,
          \<lambda>(alignment, i_max, j_max, min_score, i, j). length (alignment ! j) - i]"
    by (simp; arith)
next
  fix alignment :: "'a list list" and i_max j_max :: nat and min_score :: 'a and i j :: nat
    and a :: 'a
  assume "lookup2 alignment j (i + 1) = Inr a"
  then have "i + 1 < length (alignment ! j)"
    by (simp add: lookup2_def split: if_splits)
  then show "((alignment, i_max, j_max, min_score, i + 1, j),
              (alignment, i_max, j_max, min_score, i, j))
      \<in> measures [\<lambda>(alignment, i_max, j_max, min_score, i, j). length alignment - j,
          \<lambda>(alignment, i_max, j_max, min_score, i, j). length (alignment ! j) - i]"
    by (simp; arith)
qed

declare advance.simps [simp del]

lemma advance_cursor:
  "advance alignment i_max j_max min_score i j = Inr (i', j') \<Longrightarrow> i < i_max \<Longrightarrow> j < j_max
   \<Longrightarrow> (j' = j \<and> i < i' \<and> i' < i_max) \<or> (j < j' \<and> j' < j_max \<and> i' < i_max)
       \<or> (i' = i_max \<and> j' = j_max)"
proof (induction alignment i_max j_max min_score i j rule: advance.induct)
  case (1 alignment i_max j_max min_score i j)
  show ?case
  proof (cases "i + 1 = i_max")
    case wrap: True
    show ?thesis
    proof (cases "j + 1 = j_max")
      case True
      with wrap "1.prems"(1) show ?thesis
        by (simp add: advance.simps [of alignment i_max j_max min_score i j])
    next
      case False
      with "1.prems" have jlt: "j + 1 < j_max" by simp
      from wrap False "1.prems"(1) obtain a where
        a: "lookup2 alignment (j + 1) 0 = Inr a"
        by (cases "lookup2 alignment (j + 1) 0")
           (simp_all add: advance.simps [of alignment i_max j_max min_score i j])
      show ?thesis
      proof (cases "min_score < a")
        case True
        with wrap False a "1.prems"(1) have "i' = 0" "j' = j + 1"
          by (simp_all add: advance.simps [of alignment i_max j_max min_score i j])
        with jlt "1.prems" show ?thesis by simp
      next
        case nb: False
        with wrap False a "1.prems"(1)
        have "advance alignment i_max j_max min_score 0 (j + 1) = Inr (i', j')"
          by (simp add: advance.simps [of alignment i_max j_max min_score i j])
        from "1.IH"(1) [OF wrap False a nb this _ jlt] "1.prems" jlt show ?thesis
          by auto
      qed
    qed
  next
    case False
    with "1.prems" have ilt: "i + 1 < i_max" by simp
    from False "1.prems"(1) obtain a where a: "lookup2 alignment j (i + 1) = Inr a"
      by (cases "lookup2 alignment j (i + 1)")
         (simp_all add: advance.simps [of alignment i_max j_max min_score i j])
    show ?thesis
    proof (cases "min_score < a")
      case True
      with False a "1.prems"(1) have "i' = i + 1" "j' = j"
        by (simp_all add: advance.simps [of alignment i_max j_max min_score i j])
      with ilt show ?thesis by simp
    next
      case nb: False
      with False a "1.prems"(1)
      have "advance alignment i_max j_max min_score (i + 1) j = Inr (i', j')"
        by (simp add: advance.simps [of alignment i_max j_max min_score i j])
      from "1.IH"(2) [OF False a nb this ilt "1.prems"(3)] show ?thesis
        by auto
    qed
  qed
qed

text \<open>
  The forward pass.  \<open>viterbi_fw\<close> is the score array, all zero at the start; the
  cell under the cursor is filled from its three predecessors, then the cursor is
  advanced.
\<close>

function forward ::
  "('a::{plus,zero,linorder}) list list \<Rightarrow> nat \<Rightarrow> nat \<Rightarrow> 'a \<Rightarrow> (nat \<times> nat \<Rightarrow> 'a) \<Rightarrow> nat \<Rightarrow> nat
   \<Rightarrow> error + (nat \<times> nat \<Rightarrow> 'a)" where
  "forward alignment i_max j_max min_score viterbi_fw i j =
     (if i < i_max \<and> j < j_max
      then (let im1 = (if 0 < i then viterbi_fw (i - 1, j) else 0);
                jm1 = (if 0 < j then viterbi_fw (i, j - 1) else 0);
                ijm1 = (if 0 < i \<and> 0 < j then viterbi_fw (i - 1, j - 1) else 0)
            in case lookup2 alignment j i of
                 Inl e \<Rightarrow> Inl e
               | Inr a \<Rightarrow>
                  (case advance alignment i_max j_max min_score i j of
                     Inl e \<Rightarrow> Inl e
                   | Inr (i', j') \<Rightarrow>
                       forward alignment i_max j_max min_score
                         (viterbi_fw((i, j) := a + max im1 (max jm1 ijm1))) i' j'))
      else Inr viterbi_fw)"
  by pat_completeness auto
termination
proof (relation "measures [\<lambda>(alignment, i_max, j_max, min_score, viterbi_fw, i, j). j_max - j,
    \<lambda>(alignment, i_max, j_max, min_score, viterbi_fw, i, j). i_max - i]", goal_cases)
  case 1
  show ?case by simp
next
  case (2 alignment i_max j_max min_score viterbi_fw i j im1 jm1 ijm1 a p i' j')
  then have "advance alignment i_max j_max min_score i j = Inr (i', j')" "i < i_max" "j < j_max"
    by simp_all
  from advance_cursor [OF this] 2 show ?case
    by auto
qed

declare forward.simps [simp del]

text \<open>\<open>np.argmax\<close> of a vector: the first index of a largest element.\<close>

fun argmax_aux :: "('a::linorder) \<Rightarrow> nat \<Rightarrow> nat \<Rightarrow> 'a list \<Rightarrow> nat" where
  "argmax_aux best bi k [] = bi"
| "argmax_aux best bi k (v # vs) =
     (if best < v then argmax_aux v k (Suc k) vs else argmax_aux best bi (Suc k) vs)"

fun argmax :: "('a::linorder) list \<Rightarrow> error + nat" where
  "argmax [] = Inl ValueError"
| "argmax (v # vs) = Inr (argmax_aux v 0 1 vs)"

text \<open>
  The cell where the backward pass starts.  A negative slice start counts from the
  end of the axis and is clamped at zero; indexing an axis of size zero raises
  \<open>IndexError\<close>.
\<close>

definition start_i :: "(nat \<times> nat \<Rightarrow> 'a::linorder) \<Rightarrow> nat \<Rightarrow> nat \<Rightarrow> error + int" where
  "start_i viterbi_fw i_max j_max =
     (if i_max \<le> j_max then Inr (int i_max - 1)
      else if j_max = 0 then Inl IndexError
      else (let first = (if j_max < 2 then 0 else j_max - 2)
            in case argmax (map (\<lambda>r. viterbi_fw (r, j_max - 1)) [first ..< i_max]) of
                 Inl e \<Rightarrow> Inl e
               | Inr k \<Rightarrow> Inr (int j_max - 2 + int k)))"

definition start_j :: "(nat \<times> nat \<Rightarrow> 'a::linorder) \<Rightarrow> nat \<Rightarrow> nat \<Rightarrow> error + int" where
  "start_j viterbi_fw i_max j_max =
     (if j_max \<le> i_max then Inr (int j_max - 1)
      else if i_max = 0 then Inl IndexError
      else (let first = (if i_max < 2 then 0 else i_max - 2)
            in case argmax (map (\<lambda>c. viterbi_fw (i_max - 1, c)) [first ..< j_max]) of
                 Inl e \<Rightarrow> Inl e
               | Inr k \<Rightarrow> Inr (int i_max - 2 + int k)))"

text \<open>
  Reading the array in the backward pass: index \<open>-1\<close> denotes the last row or
  column, as in numpy.
\<close>

definition vread :: "(nat \<times> nat \<Rightarrow> 'a) \<Rightarrow> nat \<Rightarrow> nat \<Rightarrow> int \<Rightarrow> int \<Rightarrow> 'a" where
  "vread viterbi_fw i_max j_max i j =
     viterbi_fw (nat (if i < 0 then i + int i_max else i),
                 nat (if j < 0 then j + int j_max else j))"

text \<open>One step of the backward pass: the predecessor cell to move to.\<close>

definition bw_next :: "(nat \<times> nat \<Rightarrow> 'a::linorder) \<Rightarrow> nat \<Rightarrow> nat \<Rightarrow> int \<Rightarrow> int \<Rightarrow> int \<times> int" where
  "bw_next viterbi_fw i_max j_max i j =
     (if vread viterbi_fw i_max j_max i (j - 1) < vread viterbi_fw i_max j_max (i - 1) j
      then (if vread viterbi_fw i_max j_max (i - 1) (j - 1)
                < vread viterbi_fw i_max j_max (i - 1) j
            then (i - 1, j)
            else (i - 1, j - 1))
      else if vread viterbi_fw i_max j_max (i - 1) (j - 1)
                < vread viterbi_fw i_max j_max i (j - 1)
      then (i, j - 1)
      else (i - 1, j - 1))"

text \<open>
  The backward pass.  Inside the loop \<open>i\<close> and \<open>j\<close> are not negative; the cells read
  are \<open>(i - 1, j)\<close>, \<open>(i, j - 1)\<close> and \<open>(i - 1, j - 1)\<close>, so a read fails exactly when
  \<open>i\<close> or \<open>j\<close> lies beyond the array.  At the end the start of the line is forced
  into the path.
\<close>

function backward ::
  "(nat \<times> nat \<Rightarrow> 'a::linorder) \<Rightarrow> nat \<Rightarrow> nat \<Rightarrow> (nat \<rightharpoonup> nat) \<Rightarrow> int \<Rightarrow> int
   \<Rightarrow> error + (nat \<rightharpoonup> nat)" where
  "backward viterbi_fw i_max j_max realignment i j =
     (if 0 \<le> i \<and> 0 \<le> j
      then (if i < int i_max \<and> j < int j_max
            then (case bw_next viterbi_fw i_max j_max i j of
                    (i', j') \<Rightarrow>
                      backward viterbi_fw i_max j_max (realignment(nat i \<mapsto> nat j)) i' j')
            else Inl IndexError)
      else Inr (realignment(0 \<mapsto> 0)))"
  by pat_completeness auto
termination
  by (relation "measure (\<lambda>(viterbi_fw, i_max, j_max, realignment, i, j). nat (i + j + 2))")
     (auto simp: bw_next_def split: if_splits)

declare backward.simps [simp del]

definition alignment2path ::
  "('a::{plus,zero,linorder}) list list \<Rightarrow> nat \<Rightarrow> nat \<Rightarrow> 'a \<Rightarrow> error + (nat \<rightharpoonup> nat)" where
  "alignment2path alignment i_max j_max min_score =
     (case forward alignment i_max j_max min_score (\<lambda>_. 0) 0 0 of
        Inl e \<Rightarrow> Inl e
      | Inr viterbi_fw \<Rightarrow>
         (case start_i viterbi_fw i_max j_max of
            Inl e \<Rightarrow> Inl e
          | Inr i \<Rightarrow>
             (case start_j viterbi_fw i_max j_max of
                Inl e \<Rightarrow> Inl e
              | Inr j \<Rightarrow> backward viterbi_fw i_max j_max [i_max \<mapsto> j_max] i j)))"

text \<open>A matrix that covers the rectangle of \<open>i_max\<close> input and \<open>j_max\<close> output positions.\<close>

definition covers :: "'a list list \<Rightarrow> nat \<Rightarrow> nat \<Rightarrow> bool" where
  "covers alignment i_max j_max =
     (j_max \<le> length alignment \<and> list_all (\<lambda>row. i_max \<le> length row) (take j_max alignment))"

section \<open>Line extraction: from text results to line strings\<close>

text \<open>
  An entry of a line sequence is a text result with the word and the text line it
  belongs to.  The word and line are references that are only passed along, so their
  types are left open.

  For one line, \<open>_line_sequences2string_sequences\<close> yields the line string, the
  confidence of every character, and three dictionaries from start positions to text
  results, words and lines.  A dictionary is a list of key-value pairs in insertion
  order; \<open>AList.update\<close> overwrites the value of a key in place or appends a new key.
  The five parallel result lists of the code are one list of records here.
\<close>

record ('w, 'l) line_strings =
  line_input :: ustring
  line_confs :: "real list"
  textequiv_starts :: "(nat \<times> textequiv) list"
  word_starts :: "(nat \<times> 'w) list"
  textline_starts :: "(nat \<times> 'l) list"

text \<open>\<open>float(textequiv.conf or "1.0")\<close>: an unset and a zero confidence both count as one.\<close>

definition conf_float :: "textequiv \<Rightarrow> real" where
  "conf_float t = (case conf t of None \<Rightarrow> 1 | Some c \<Rightarrow> if c = 0 then 1 else c)"

text \<open>
  The loop over the entries of one line.  \<open>GAP\<close> is declared in the module
  \<open>lib/seq2seq.py\<close>, which is not among the sources; it is the parameter \<open>gap\<close>, one
  character, as the code's \<open>j = 1\<close> presumes.  \<open>mapping\<close> is the vocabulary of the
  model, a dictionary from characters to indexes.  The dictionary of text results
  holds references, so it shows the replaced content.
\<close>

fun line_sequence2strings ::
  "(uchar \<rightharpoonup> nat) \<Rightarrow> uchar \<Rightarrow> (textequiv \<times> 'w \<times> 'l) list \<Rightarrow> nat \<Rightarrow> ('w, 'l) line_strings
   \<Rightarrow> error + ('w, 'l) line_strings" where
  "line_sequence2strings mapping gap [] i acc = Inr acc"
| "line_sequence2strings mapping gap ((textequiv, word, textline) # rest) i acc =
     (case (if Unicode textequiv = []
            then (if mapping gap \<noteq> None then Inl GapMapped
                  else Inr (textequiv\<lparr>Unicode := [gap]\<rparr>, 1))
            else Inr (textequiv, length (Unicode textequiv))) of
        Inl e \<Rightarrow> Inl e
      | Inr (textequiv', j) \<Rightarrow>
          line_sequence2strings mapping gap rest (i + j)
            \<lparr>line_input = line_input acc @ Unicode textequiv',
             line_confs = line_confs acc @ replicate j (conf_float textequiv'),
             textequiv_starts = AList.update i textequiv' (textequiv_starts acc),
             word_starts = AList.update i word (word_starts acc),
             textline_starts = AList.update i textline (textline_starts acc)\<rparr>)"

fun line_sequences2string_sequences ::
  "(uchar \<rightharpoonup> nat) \<Rightarrow> uchar \<Rightarrow> (textequiv \<times> 'w \<times> 'l) list list
   \<Rightarrow> error + ('w, 'l) line_strings list" where
  "line_sequences2string_sequences mapping gap [] = Inr []"
| "line_sequences2string_sequences mapping gap (line_sequence # rest) =
     (case line_sequence2strings mapping gap line_sequence 0
             \<lparr>line_input = [], line_confs = [], textequiv_starts = [], word_starts = [],
              textline_starts = []\<rparr> of
        Inl e \<Rightarrow> Inl e
      | Inr r \<Rightarrow>
         (case line_sequences2string_sequences mapping gap rest of
            Inl e \<Rightarrow> Inl e
          | Inr rs \<Rightarrow> Inr (r # rs)))"

text \<open>
  What the extraction computes, written without a loop: every text result
  contributes its content, or the placeholder if the content is empty, together with
  as many copies of its confidence; the start positions are the running sums of the
  lengths.
\<close>

definition gap_subst :: "uchar \<Rightarrow> textequiv \<Rightarrow> textequiv" where
  "gap_subst gap t = (if Unicode t = [] then t\<lparr>Unicode := [gap]\<rparr> else t)"

fun offsets :: "nat \<Rightarrow> textequiv list \<Rightarrow> nat list" where
  "offsets i [] = []"
| "offsets i (t # ts) = i # offsets (i + length (Unicode t)) ts"

definition line_strings_of :: "uchar \<Rightarrow> (textequiv \<times> 'w \<times> 'l) list \<Rightarrow> ('w, 'l) line_strings" where
  "line_strings_of gap line_sequence =
     (let spans = map (\<lambda>e. gap_subst gap (fst e)) line_sequence;
          starts = offsets 0 spans
      in \<lparr>line_input = concat (map Unicode spans),
          line_confs = concat (map (\<lambda>t. replicate (length (Unicode t)) (conf_float t)) spans),
          textequiv_starts = zip starts spans,
          word_starts = zip starts (map (\<lambda>e. fst (snd e)) line_sequence),
          textline_starts = zip starts (map (\<lambda>e. snd (snd e)) line_sequence)\<rparr>)"

definition has_empty :: "(textequiv \<times> 'w \<times> 'l) list list \<Rightarrow> bool" where
  "has_empty line_sequences =
     list_ex (list_ex (\<lambda>e. Unicode (fst e) = [])) line_sequences"

section \<open>The edit distributor: writing the corrected line back\<close>

text \<open>Python's slice \<open>s[a:b]\<close> for non-negative \<open>a\<close> and \<open>b\<close>.\<close>

definition slice :: "'a list \<Rightarrow> nat \<Rightarrow> nat \<Rightarrow> 'a list" where
  "slice s a b = take (b - a) (drop a s)"

text \<open>
  \<open>str.startswith((" ", "\n"))\<close> and \<open>str.endswith((" ", "\n"))\<close>; both are false for
  the empty string.
\<close>

definition starts_ws :: "ustring \<Rightarrow> bool" where
  "starts_ws s = (s \<noteq> [] \<and> (hd s = SP \<or> hd s = NL))"

definition ends_ws :: "ustring \<Rightarrow> bool" where
  "ends_ws s = (s \<noteq> [] \<and> (last s = SP \<or> last s = NL))"

text \<open>
  The characters at which \<open>str.split()\<close> splits: Unicode whitespace.  \<open>has_token s\<close>
  is the truth value of \<open>s.split()\<close>, which is a non-empty list when \<open>s\<close> holds a
  character that is not whitespace.
\<close>

definition isspace :: "uchar \<Rightarrow> bool" where
  "isspace c = ((9 \<le> c \<and> c \<le> 13) \<or> (28 \<le> c \<and> c \<le> 32) \<or> c = 133 \<or> c = 160
     \<or> c = 5760 \<or> (8192 \<le> c \<and> c \<le> 8202) \<or> c = 8232 \<or> c = 8233 \<or> c = 8239
     \<or> c = 8287 \<or> c = 12288)"

definition has_token :: "ustring \<Rightarrow> bool" where
  "has_token s = list_ex (\<lambda>c. \<not> isspace c) s"

text \<open>\<open>s.split(" ")[-1]\<close>: the part after the last space, all of \<open>s\<close> if it has none.\<close>

definition last_token :: "ustring \<Rightarrow> ustring" where
  "last_token s = rev (takeWhile (\<lambda>c. c \<noteq> SP) (rev s))"

text \<open>
  The loops that hand the front of \<open>output\<close> to the element committed before: while
  the condition holds for the rest of \<open>output\<close>, its first character is appended to
  \<open>sequence[-1][0].Unicode\<close> and \<open>last[1]\<close> is advanced.  \<open>shift_left\<close> returns the
  characters moved and the rest, \<open>append_last\<close> appends to the last element, and
  \<open>move_left\<close> is the whole loop.
\<close>

fun shift_left :: "(ustring \<Rightarrow> bool) \<Rightarrow> ustring \<Rightarrow> ustring \<times> ustring" where
  "shift_left cond [] = ([], [])"
| "shift_left cond (c # cs) =
     (if cond (c # cs)
      then (case shift_left cond cs of (moved, rest) \<Rightarrow> (c # moved, rest))
      else ([], c # cs))"

definition append_last ::
  "(textequiv \<times> 'w \<times> 'l) list \<Rightarrow> ustring \<Rightarrow> (textequiv \<times> 'w \<times> 'l) list" where
  "append_last sequence moved =
     (if sequence = [] then []
      else butlast sequence
           @ [(case last sequence of
                 (t, w, l) \<Rightarrow> (t\<lparr>Unicode := Unicode t @ moved\<rparr>, w, l))])"

definition move_left ::
  "(ustring \<Rightarrow> bool) \<Rightarrow> (textequiv \<times> 'w \<times> 'l) list \<Rightarrow> nat \<Rightarrow> ustring
   \<Rightarrow> (textequiv \<times> 'w \<times> 'l) list \<times> nat \<times> ustring" where
  "move_left cond sequence last1 output =
     (case shift_left cond output of
        (moved, rest) \<Rightarrow> (append_last sequence moved, last1 + length moved, rest))"

text \<open>
  The loop that leaves trailing whitespace to the element that follows:
  \<open>while output.endswith((" ", "\n")): j -= 1; output = output[:-1]\<close>.
\<close>

function strip_right :: "ustring \<Rightarrow> nat \<Rightarrow> ustring \<times> nat" where
  "strip_right output j =
     (if ends_ws output then strip_right (butlast output) (j - 1) else (output, j))"
  by pat_completeness auto
termination
  by (relation "measure (\<lambda>(output, j). length output)") (auto simp: ends_ws_def)

declare strip_right.simps [simp del]

text \<open>
  Redistribution for an element whose input is a single space or newline: whatever of
  the output is not whitespace goes to the neighbours.
\<close>

definition redistribute_ws ::
  "ustring \<Rightarrow> (textequiv \<times> 'w \<times> 'l) list \<Rightarrow> nat \<Rightarrow> nat \<Rightarrow> ustring
   \<Rightarrow> (textequiv \<times> 'w \<times> 'l) list \<times> nat \<times> nat \<times> ustring" where
  "redistribute_ws output_line sequence last1 j output =
     (case (if output \<noteq> [] \<and> \<not> starts_ws output \<and> sequence \<noteq> []
            then move_left (\<lambda>s. s \<noteq> [] \<and> \<not> starts_ws s) sequence last1 output
            else (sequence, last1, output)) of
        (sequence1, last1a, output1) \<Rightarrow>
          (case (if output1 \<noteq> [] \<and> \<not> ends_ws output1
                 then (j - length (last_token output1),
                       slice output_line last1a (j - length (last_token output1)))
                 else (j, output1)) of
             (j2, output2) \<Rightarrow>
               (case (if has_token output2 \<and> sequence1 \<noteq> []
                      then move_left has_token sequence1 last1a output2
                      else (sequence1, last1a, output2)) of
                  (sequence3, last1c, output3) \<Rightarrow> (sequence3, last1c, j2, output3))))"

text \<open>
  Redistribution for any other element: leading spaces go to the element before if
  that is an implicit whitespace element (\<open>index = -1\<close>), trailing spaces and newlines
  are left to the element after if the input continues with whitespace.
\<close>

definition redistribute_nonws ::
  "ustring \<Rightarrow> nat \<Rightarrow> nat \<Rightarrow> (textequiv \<times> 'w \<times> 'l) list \<Rightarrow> nat \<Rightarrow> nat \<Rightarrow> ustring
   \<Rightarrow> (textequiv \<times> 'w \<times> 'l) list \<times> nat \<times> nat \<times> ustring" where
  "redistribute_nonws input_line i_max i sequence last1 j output =
     (case (if output \<noteq> [] \<and> hd output = SP \<and> sequence \<noteq> []
               \<and> index (fst (last sequence)) = Some (- 1)
            then move_left (\<lambda>s. s \<noteq> [] \<and> hd s = SP) sequence last1 output
            else (sequence, last1, output)) of
        (sequence1, last1a, output1) \<Rightarrow>
          (if ends_ws output1 \<and> i < i_max \<and> (input_line ! i = SP \<or> input_line ! i = NL)
           then (case strip_right output1 j of
                   (output2, j2) \<Rightarrow> (sequence1, last1a, j2, output2))
           else (sequence1, last1a, j, output1)))"

text \<open>
  The redistribution of one segment: \<open>input_\<close> is \<open>input_line[last[0]:i]\<close>, \<open>output\<close>
  is \<open>output_line[last[1]:j]\<close>.  The result is the sequence, \<open>last[1]\<close>, \<open>j\<close> and
  \<open>output\<close> as they are when the segment is committed.
\<close>

definition redistribute ::
  "ustring \<Rightarrow> ustring \<Rightarrow> nat \<Rightarrow> nat \<Rightarrow> (textequiv \<times> 'w \<times> 'l) list \<Rightarrow> nat \<Rightarrow> nat
   \<Rightarrow> (textequiv \<times> 'w \<times> 'l) list \<times> nat \<times> nat \<times> ustring" where
  "redistribute input_line output_line last0 i sequence last1 j =
     (if slice input_line last0 i = [SP] \<or> slice input_line last0 i = [NL]
      then redistribute_ws output_line sequence last1 j (slice output_line last1 j)
      else redistribute_nonws input_line (length input_line) i sequence last1 j
             (slice output_line last1 j))"

text \<open>\<open>np.mean\<close> of a non-empty list.\<close>

definition mean :: "real list \<Rightarrow> real" where
  "mean xs = sum_list xs / real (length xs)"

text \<open>
  One iteration of the loop over the keys of \<open>textequivs\<close>.  The state is \<open>lastp\<close>
  (the pair \<open>last\<close> of the code, unset before the first key) and \<open>sequence\<close>; the dictionary \<open>textequivs\<close> holds the
  text results as they were before the line is processed, since only elements of
  \<open>sequence\<close> are changed and every text result has a key of its own.  An error
  carries the sequence as it stands when the exception is raised.
\<close>

definition update_step ::
  "ustring \<Rightarrow> ustring \<Rightarrow> real list \<Rightarrow> (nat \<rightharpoonup> nat) \<Rightarrow> (nat \<times> textequiv option) list
   \<Rightarrow> (nat \<times> 'w) list \<Rightarrow> (nat \<times> 'l) list \<Rightarrow> nat
   \<Rightarrow> (nat \<times> nat) option \<Rightarrow> (textequiv \<times> 'w \<times> 'l) list
   \<Rightarrow> (error \<times> (textequiv \<times> 'w \<times> 'l) list)
       + ((nat \<times> nat) option \<times> (textequiv \<times> 'w \<times> 'l) list)" where
  "update_step input_line output_line output_prob realignment textequivs words textlines
      i lastp sequence =
     (case (case realignment i of
              Some j \<Rightarrow> Inr j
            | None \<Rightarrow> (case lastp of None \<Rightarrow> Inl TypeError | Some (last0, last1) \<Rightarrow> Inr last1)) of
        Inl e \<Rightarrow> Inl (e, sequence)
      | Inr j \<Rightarrow>
         (case lastp of
            None \<Rightarrow> Inr (Some (i, j), sequence)
          | Some (last0, last1) \<Rightarrow>
             (case redistribute input_line output_line last0 i sequence last1 j of
                (sequence1, last1a, j1, output) \<Rightarrow>
                  (case map_of textequivs last0 of
                     None \<Rightarrow> Inl (KeyError, sequence1)
                   | Some None \<Rightarrow> Inl (AttributeError, sequence1)
                   | Some (Some textequiv) \<Rightarrow>
                      (if Unicode textequiv \<noteq> slice input_line last0 i
                       then Inl (SourceMismatch, sequence1)
                       else (case map_of words last0 of
                               None \<Rightarrow> Inl (KeyError, sequence1)
                             | Some word \<Rightarrow>
                                (case map_of textlines last0 of
                                   None \<Rightarrow> Inl (KeyError, sequence1)
                                 | Some textline \<Rightarrow>
                                    Inr (Some (i, j1),
                                         sequence1
                                         @ [(textequiv\<lparr>Unicode := output,
                                               conf := Some (mean
                                                 (if slice output_prob last1a j1 = [] then [1]
                                                  else slice output_prob last1a j1))\<rparr>,
                                             word, textline)]))))))))"

fun update_loop ::
  "ustring \<Rightarrow> ustring \<Rightarrow> real list \<Rightarrow> (nat \<rightharpoonup> nat) \<Rightarrow> (nat \<times> textequiv option) list
   \<Rightarrow> (nat \<times> 'w) list \<Rightarrow> (nat \<times> 'l) list \<Rightarrow> nat list
   \<Rightarrow> (nat \<times> nat) option \<Rightarrow> (textequiv \<times> 'w \<times> 'l) list
   \<Rightarrow> (error \<times> (textequiv \<times> 'w \<times> 'l) list)
       + ((nat \<times> nat) option \<times> (textequiv \<times> 'w \<times> 'l) list)" where
  "update_loop input_line output_line output_prob realignment textequivs words textlines
      [] lastp sequence = Inr (lastp, sequence)"
| "update_loop input_line output_line output_prob realignment textequivs words textlines
      (i # keys) lastp sequence =
     (case update_step input_line output_line output_prob realignment textequivs words
             textlines i lastp sequence of
        Inl e \<Rightarrow> Inl e
      | Inr (lastp', sequence') \<Rightarrow>
          update_loop input_line output_line output_prob realignment textequivs words
            textlines keys lastp' sequence')"

text \<open>\<open>dict.setdefault\<close>: a new key is appended, an existing one is left alone.\<close>

definition setdefault :: "'k \<Rightarrow> 'v \<Rightarrow> ('k \<times> 'v) list \<Rightarrow> ('k \<times> 'v) list" where
  "setdefault k v al = (if map_of al k = None then al @ [(k, v)] else al)"

text \<open>
  \<open>_update_sequence\<close>.  The words and lines are optional references (\<open>None\<close> is
  Python's \<open>None\<close>); \<open>line\<close>, the first line that is set, is only used in the messages
  of the assertions, but looking for it raises \<open>StopIteration\<close> if there is none.
  \<open>score\<close> is not used by the code.
\<close>

definition update_sequence ::
  "ustring \<Rightarrow> ustring \<Rightarrow> real list \<Rightarrow> real \<Rightarrow> (nat \<rightharpoonup> nat) \<Rightarrow> (nat \<times> textequiv) list
   \<Rightarrow> (nat \<times> 'w option) list \<Rightarrow> (nat \<times> 'l option) list
   \<Rightarrow> (error \<times> (textequiv \<times> 'w option \<times> 'l option) list)
       + (textequiv \<times> 'w option \<times> 'l option) list" where
  "update_sequence input_line output_line output_prob score realignment textequivs words
      textlines =
     (let i_max = length input_line;
          j_max = length output_line;
          textequivs1 = setdefault i_max None (map (\<lambda>e. (fst e, Some (snd e))) textequivs)
      in if \<not> list_ex (\<lambda>e. snd e \<noteq> None) textlines then Inl (StopIteration, [])
         else (case update_loop input_line output_line output_prob realignment textequivs1
                      words textlines (map fst textequivs1) None [] of
                 Inl e \<Rightarrow> Inl e
               | Inr (lastp, sequence) \<Rightarrow>
                   (if lastp \<noteq> Some (i_max, j_max) then Inl (PathNotAtTop, sequence)
                    else if list_ex (\<lambda>e. has_token (Unicode (fst e))
                                             \<and> index (fst e) = Some (- 1)) sequence
                    then Inl (OutputLost, sequence)
                    else Inr sequence)))"

text \<open>
  The keys that the loop of \<open>_update_sequence\<close> visits: the start positions of the
  text results and the length of the line.  Element \<open>n\<close> is committed between
  boundary \<open>n\<close> and boundary \<open>n + 1\<close>; it mismatches if its content is not that piece
  of the input line.
\<close>

definition boundaries :: "ustring \<Rightarrow> (nat \<times> textequiv) list \<Rightarrow> nat list" where
  "boundaries input_line textequivs =
     map fst textequivs
     @ (if length input_line \<in> set (map fst textequivs) then [] else [length input_line])"

definition mismatch_at :: "ustring \<Rightarrow> (nat \<times> textequiv) list \<Rightarrow> nat \<Rightarrow> bool" where
  "mismatch_at input_line textequivs n =
     (Suc n < length (boundaries input_line textequivs)
      \<and> Unicode (snd (textequivs ! n))
          \<noteq> slice input_line (boundaries input_line textequivs ! n)
              (boundaries input_line textequivs ! Suc n))"

text \<open>
  The dictionaries fit together: the keys are distinct, the first key has an entry in
  the path, every start position has a word and a line entry, and some line is set.
  Then neither \<open>TypeError\<close> nor \<open>KeyError\<close> nor \<open>StopIteration\<close> can arise.
\<close>

definition well_keyed ::
  "ustring \<Rightarrow> (nat \<rightharpoonup> nat) \<Rightarrow> (nat \<times> textequiv) list \<Rightarrow> (nat \<times> 'w option) list
   \<Rightarrow> (nat \<times> 'l option) list \<Rightarrow> bool" where
  "well_keyed input_line realignment textequivs words textlines =
     (distinct (map fst textequivs)
      \<and> realignment (hd (boundaries input_line textequivs)) \<noteq> None
      \<and> list_all (\<lambda>k. map_of words k \<noteq> None \<and> map_of textlines k \<noteq> None)
            (map fst textequivs)
      \<and> list_ex (\<lambda>e. snd e \<noteq> None) textlines)"

text \<open>
  Used in the proofs: a key whose element can be committed without \<open>KeyError\<close> or
  \<open>AttributeError\<close>, and a segment whose text result does not match the input.
\<close>

definition committable ::
  "(nat \<times> textequiv option) list \<Rightarrow> (nat \<times> 'w) list \<Rightarrow> (nat \<times> 'l) list \<Rightarrow> nat \<Rightarrow> bool" where
  "committable textequivs words textlines k =
     ((\<exists>t. map_of textequivs k = Some (Some t)) \<and> map_of words k \<noteq> None
      \<and> map_of textlines k \<noteq> None)"

definition seg_mismatch :: "ustring \<Rightarrow> (nat \<times> textequiv option) list \<Rightarrow> nat \<Rightarrow> nat \<Rightarrow> bool" where
  "seg_mismatch input_line textequivs a b =
     (\<forall>t. map_of textequivs a = Some (Some t) \<longrightarrow> Unicode t \<noteq> slice input_line a b)"

text \<open>
  The line \<open>alot\<close> with its newline: one word and the implicit newline element, the
  dictionary of words (also used for the lines), a path that sends the end of the
  line to output position \<open>6\<close>, and a dictionary whose first content is not the input.
\<close>

definition ex_textequivs :: "(nat \<times> textequiv) list" where
  "ex_textequivs = [(0, \<lparr>Unicode = [97, 108, 111, 116], conf = Some (1 / 2), index = None\<rparr>),
     (4, \<lparr>Unicode = [10], conf = Some 1, index = Some (- 1)\<rparr>)]"

definition ex_words :: "(nat \<times> nat option) list" where
  "ex_words = [(0, Some 1), (4, Some 1)]"

definition ex_path :: "nat \<rightharpoonup> nat" where
  "ex_path = [0 \<mapsto> 0, 1 \<mapsto> 1, 2 \<mapsto> 2, 3 \<mapsto> 3, 4 \<mapsto> 4, 5 \<mapsto> 6]"

definition ex_mismatching :: "(nat \<times> textequiv) list" where
  "ex_mismatching = [(0, \<lparr>Unicode = [97, 108, 116, 111], conf = Some (1 / 2), index = None\<rparr>),
     (4, \<lparr>Unicode = [10], conf = Some 1, index = Some (- 1)\<rparr>)]"

text \<open>
  The line \<open>a\<close>: one word and the implicit newline element, and a soft alignment of
  its two input positions against three output positions, the first of which is an
  inserted space.
\<close>

definition ex_a :: "(nat \<times> textequiv) list" where
  "ex_a = [(0, \<lparr>Unicode = [97], conf = Some (1 / 2), index = None\<rparr>),
     (1, \<lparr>Unicode = [10], conf = Some 1, index = Some (- 1)\<rparr>)]"

definition ex_a_words :: "(nat \<times> nat option) list" where
  "ex_a_words = [(0, Some 1), (1, Some 1)]"

definition ex_alignment_shift :: "int list list" where
  "ex_alignment_shift =
     [[1, 0],
      [2, 0],
      [0, 2]]"

text \<open>
  The total length of the contents of a sequence of elements, and a path that is
  non-decreasing along a list of keys.
\<close>

definition content_length :: "(textequiv \<times> 'w \<times> 'l) list \<Rightarrow> nat" where
  "content_length sequence = sum_list (map (\<lambda>e. length (Unicode (fst e))) sequence)"

definition path_sorted :: "(nat \<rightharpoonup> nat) \<Rightarrow> nat list \<Rightarrow> bool" where
  "path_sorted realignment keys =
     sorted_wrt (\<lambda>a b. \<forall>va vb. realignment a = Some va \<longrightarrow> realignment b = Some vb
                        \<longrightarrow> va \<le> vb) keys"

text \<open>The line sequence of the line \<open>a\<close>, and what the extraction makes of it.\<close>

definition ex_line_sequence :: "(textequiv \<times> nat option \<times> nat option) list" where
  "ex_line_sequence =
     [(\<lparr>Unicode = [97], conf = Some (1 / 2), index = None\<rparr>, Some 1, Some 1),
      (\<lparr>Unicode = [10], conf = Some 1, index = Some (- 1)\<rparr>, Some 1, Some 1)]"

definition ex_line_strings :: "(nat option, nat option) line_strings" where
  "ex_line_strings = \<lparr>line_input = [97, 10], line_confs = [1 / 2, 1], textequiv_starts = ex_a,
     word_starts = ex_a_words, textline_starts = ex_a_words\<rparr>"

text \<open>
  A soft alignment of a line with itself that is effectively the identity: the score
  is above the threshold on the diagonal and nowhere else.  \<open>diag_filled\<close> is the state
  of the forward pass on such an alignment: zero off the diagonal, positive on the
  diagonal up to the cursor.
\<close>

definition identity_like :: "('a::linorder) list list \<Rightarrow> nat \<Rightarrow> 'a \<Rightarrow> bool" where
  "identity_like alignment n min_score =
     (covers alignment n n
      \<and> (\<forall>j < n. \<forall>i < n. (min_score < alignment ! j ! i) = (i = j)))"

definition diag_filled :: "(nat \<times> nat \<Rightarrow> 'a::{zero,linorder}) \<Rightarrow> nat \<Rightarrow> bool" where
  "diag_filled viterbi_fw k =
     ((\<forall>i j. i \<noteq> j \<longrightarrow> viterbi_fw (i, j) = 0) \<and> (\<forall>d < k. 0 < viterbi_fw (d, d)))"

text \<open>
  A content from which the edit distributor moves nothing when the line is corrected
  to itself: a single space or newline, or a string that neither starts with a space
  nor ends with a space or newline.
\<close>

definition clean_span :: "ustring \<Rightarrow> bool" where
  "clean_span s = (s = [SP] \<or> s = [NL] \<or> ((s = [] \<or> hd s \<noteq> SP) \<and> \<not> ends_ws s))"

text \<open>
  What \<open>_update_sequence\<close> computes for such a line, written without the loop: every
  element keeps its content, index, word and line, and its confidence becomes the mean
  of the output probabilities over its positions, or one if there are none.
\<close>

fun rescore :: "real list \<Rightarrow> nat \<Rightarrow> (textequiv \<times> 'w \<times> 'l) list \<Rightarrow> (textequiv \<times> 'w \<times> 'l) list" where
  "rescore output_prob a [] = []"
| "rescore output_prob a (e # es) =
     (fst e\<lparr>conf := Some (mean (if slice output_prob a (a + length (Unicode (fst e))) = []
                                 then [1]
                                 else slice output_prob a (a + length (Unicode (fst e)))))\<rparr>,
      snd e)
     # rescore output_prob (a + length (Unicode (fst e))) es"

text \<open>The identity alignment of two positions.\<close>

definition ex_alignment_id :: "int list list" where
  "ex_alignment_id = [[1, 0], [0, 1]]"


section \<open>Propagating text results to the higher levels\<close>

text \<open>
  A confidence computed by \<open>np.mean\<close> is a float, which may be \<open>nan\<close>.  The text
  results of the page tree hold such a confidence, or none.
\<close>

datatype npfloat = Num real | NaN

record page_textequiv =
  pte_Unicode :: ustring
  pte_conf :: "npfloat option"

text \<open>
  The part of the page tree that \<open>page_update_higher_textequiv_levels\<close> works on: the
  text regions in reading order, their lines, words and glyphs, each with its list of
  text results.  The tree is held by value, and the function returns the updated tree.
\<close>

record glyph =
  glyph_TextEquiv :: "page_textequiv list"

record textline =
  line_Word :: "(page_textequiv, glyph) word list"
  line_TextEquiv :: "page_textequiv list"

record textregion =
  region_TextLine :: "textline list"
  region_TextEquiv :: "page_textequiv list"

text \<open>
  The processing level.  The code compares the level with \<open>'region'\<close>, \<open>'line'\<close> and
  \<open>'word'\<close> only, so any other string acts as \<open>'glyph'\<close>.
\<close>

datatype level = LevelRegion | LevelLine | LevelWord | LevelGlyph

text \<open>
  \<open>np.mean\<close> of a list of confidences: \<open>nan\<close> for the empty list (numpy warns of an
  empty slice), \<open>TypeError\<close> if a confidence is unset, \<open>nan\<close> if one of them is, and
  the sum divided by the length otherwise.
\<close>

fun np_sum :: "npfloat option list \<Rightarrow> error + npfloat" where
  "np_sum [] = Inr (Num 0)"
| "np_sum (None # xs) = Inl TypeError"
| "np_sum (Some x # xs) =
     (case np_sum xs of
        Inl e \<Rightarrow> Inl e
      | Inr NaN \<Rightarrow> Inr NaN
      | Inr (Num s) \<Rightarrow> (case x of NaN \<Rightarrow> Inr NaN | Num r \<Rightarrow> Inr (Num (r + s))))"

definition np_mean :: "npfloat option list \<Rightarrow> error + npfloat" where
  "np_mean xs =
     (if xs = [] then Inr NaN
      else case np_sum xs of
             Inl e \<Rightarrow> Inl e
           | Inr NaN \<Rightarrow> Inr NaN
           | Inr (Num s) \<Rightarrow> Inr (Num (s / real (length xs))))"

text \<open>\<open>sep.join(...)\<close> of a list of strings.\<close>

fun join :: "ustring \<Rightarrow> ustring list \<Rightarrow> ustring" where
  "join sep [] = []"
| "join sep [x] = x"
| "join sep (x # y # ys) = x @ sep @ join sep (y # ys)"

text \<open>
  The two generator expressions: the content of the first text result, or the empty
  string if the element has none; its confidence, or \<open>1.0\<close> if the element has none.
\<close>

definition first_unicode :: "page_textequiv list \<Rightarrow> ustring" where
  "first_unicode tes = (case tes of [] \<Rightarrow> [] | t # _ \<Rightarrow> pte_Unicode t)"

definition first_conf :: "page_textequiv list \<Rightarrow> npfloat option" where
  "first_conf tes = (case tes of [] \<Rightarrow> Some (Num 1) | t # _ \<Rightarrow> pte_conf t)"

text \<open>A \<open>for\<close> loop that updates every element of a list; an exception ends it.\<close>

fun for_each :: "('a \<Rightarrow> error + 'a) \<Rightarrow> 'a list \<Rightarrow> error + 'a list" where
  "for_each f [] = Inr []"
| "for_each f (x # xs) =
     (case f x of
        Inl e \<Rightarrow> Inl e
      | Inr y \<Rightarrow> (case for_each f xs of Inl e \<Rightarrow> Inl e | Inr ys \<Rightarrow> Inr (y # ys)))"

text \<open>
  The body of the loop over the words of a line (run unless the level is \<open>'word'\<close>),
  over the lines of a region (run unless the level is \<open>'line'\<close>), and over the regions
  (run unless the level is \<open>'region'\<close>).  Each replaces the list of text results of
  the element by a single new one.
\<close>

definition update_word ::
  "(page_textequiv, glyph) word \<Rightarrow> error + (page_textequiv, glyph) word" where
  "update_word word =
     (let glyphs = Glyph word;
          word_unicode = concat (map (\<lambda>glyph. first_unicode (glyph_TextEquiv glyph)) glyphs)
      in case np_mean (map (\<lambda>glyph. first_conf (glyph_TextEquiv glyph)) glyphs) of
           Inl e \<Rightarrow> Inl e
         | Inr word_conf \<Rightarrow>
             Inr (word\<lparr>TextEquiv :=
                    [\<lparr>pte_Unicode = word_unicode, pte_conf = Some word_conf\<rparr>]\<rparr>))"

definition update_line :: "level \<Rightarrow> textline \<Rightarrow> error + textline" where
  "update_line level line =
     (case (if level \<noteq> LevelWord then for_each update_word (line_Word line)
            else Inr (line_Word line)) of
        Inl e \<Rightarrow> Inl e
      | Inr words \<Rightarrow>
          (let line_unicode = join [SP] (map (\<lambda>word. first_unicode (TextEquiv word)) words)
           in case np_mean (map (\<lambda>word. first_conf (TextEquiv word)) words) of
                Inl e \<Rightarrow> Inl e
              | Inr line_conf \<Rightarrow>
                  Inr (line\<lparr>line_Word := words,
                         line_TextEquiv :=
                           [\<lparr>pte_Unicode = line_unicode, pte_conf = Some line_conf\<rparr>]\<rparr>)))"

definition update_region :: "level \<Rightarrow> textregion \<Rightarrow> error + textregion" where
  "update_region level region =
     (case (if level \<noteq> LevelLine then for_each (update_line level) (region_TextLine region)
            else Inr (region_TextLine region)) of
        Inl e \<Rightarrow> Inl e
      | Inr lines \<Rightarrow>
          (let region_unicode = join [NL] (map (\<lambda>line. first_unicode (line_TextEquiv line)) lines)
           in case np_mean (map (\<lambda>line. first_conf (line_TextEquiv line)) lines) of
                Inl e \<Rightarrow> Inl e
              | Inr region_conf \<Rightarrow>
                  Inr (region\<lparr>region_TextLine := lines,
                         region_TextEquiv :=
                           [\<lparr>pte_Unicode = region_unicode, pte_conf = Some region_conf\<rparr>]\<rparr>)))"

definition page_update_higher_textequiv_levels ::
  "level \<Rightarrow> textregion list \<Rightarrow> error + textregion list" where
  "page_update_higher_textequiv_levels level regions =
     (if level \<noteq> LevelRegion then for_each (update_region level) regions else Inr regions)"

text \<open>
  A page with one region and one line.  With \<open>the\<close> and \<open>cat\<close> as words that have
  text results but no glyphs, and with a word of one glyph followed by a word without
  glyphs.
\<close>

definition ex_glyph :: "ustring \<Rightarrow> real \<Rightarrow> glyph" where
  "ex_glyph s c = \<lparr>glyph_TextEquiv = [\<lparr>pte_Unicode = s, pte_conf = Some (Num c)\<rparr>]\<rparr>"

definition ex_page_word :: "string \<Rightarrow> ustring \<Rightarrow> real \<Rightarrow> glyph list \<Rightarrow> (page_textequiv, glyph) word" where
  "ex_page_word i s c glyphs = \<lparr>word_id = i, Coords = None, language = None, TextStyle = None,
     Glyph = glyphs, TextEquiv = [\<lparr>pte_Unicode = s, pte_conf = Some (Num c)\<rparr>]\<rparr>"

definition ex_page :: "textregion list" where
  "ex_page =
     [\<lparr>region_TextLine =
         [\<lparr>line_Word = [ex_page_word ''w1'' [116, 104, 101] (9 / 10) [],
                         ex_page_word ''w2'' [99, 97, 116] (8 / 10) []],
           line_TextEquiv = []\<rparr>],
       region_TextEquiv = []\<rparr>]"

definition ex_page_glyphs :: "textregion list" where
  "ex_page_glyphs =
     [\<lparr>region_TextLine =
         [\<lparr>line_Word = [ex_page_word ''w1'' [97] (1 / 2) [ex_glyph [97] (1 / 2)],
                         ex_page_word ''w2'' [98] (1 / 2) []],
           line_TextEquiv = []\<rparr>],
       region_TextEquiv = []\<rparr>]"

section \<open>The resegmenter: merging and splitting words\<close>

text \<open>
  \<open>_resegment_sequence\<close> compares words by identity, changes text results that other
  objects refer to, and replaces the list of words of a line.  So the objects live in
  a store here: a reference is an index into the list of objects of its class, a new
  object is appended to that list, and a word holds references to its text results
  and glyphs.  A line is represented by its list of words, a glyph by its coordinates
  and its text results.  The store only grows, so every reference stays valid.
\<close>

type_synonym ref = nat

record glyph_obj =
  glyph_Coords :: "(int \<times> int) list option"
  glyph_refs :: "ref list"

record store =
  textequiv_objs :: "textequiv list"
  word_objs :: "(ref, ref) word list"
  glyph_objs :: "glyph_obj list"
  line_words :: "ref list list"

text \<open>The truth value of a confidence: unset and zero are both false.\<close>

definition conf_truthy :: "real option \<Rightarrow> bool" where
  "conf_truthy c = (case c of None \<Rightarrow> False | Some r \<Rightarrow> r \<noteq> 0)"

text \<open>Constructing an object: it is appended to the store, its index is the reference.\<close>

definition new_textequiv :: "textequiv \<Rightarrow> store \<Rightarrow> ref \<times> store" where
  "new_textequiv t st =
     (length (textequiv_objs st), st\<lparr>textequiv_objs := textequiv_objs st @ [t]\<rparr>)"

definition new_word :: "(ref, ref) word \<Rightarrow> store \<Rightarrow> ref \<times> store" where
  "new_word w st = (length (word_objs st), st\<lparr>word_objs := word_objs st @ [w]\<rparr>)"

text \<open>
  \<open>_merge_words\<close>.  The two strings of points are joined with a space in between, which
  \<open>xywh_from_points\<close> cannot read if one of them is empty.  The merged word gets the
  list of text results of the first word, so its first text result is the very object
  that the first word holds, and appending the content of the second word changes it
  for both.  The confidences are multiplied only if both are true.
\<close>

definition merge_words :: "store \<Rightarrow> ref \<Rightarrow> ref \<Rightarrow> error + (ref \<times> store)" where
  "merge_words st prev_w next_w =
     (let p = word_objs st ! prev_w;
          n = word_objs st ! next_w;
          merged0 = WordType (word_id p @ ''.'' @ word_id n)
      in case Coords p of
           None \<Rightarrow> Inl AttributeError
         | Some prev_points \<Rightarrow>
            (case Coords n of
               None \<Rightarrow> Inl AttributeError
             | Some next_points \<Rightarrow>
                (if prev_points = [] \<or> next_points = [] then Inl ValueError
                 else case xywh_from_points (prev_points @ next_points) of
                   Inl e \<Rightarrow> Inl e
                 | Inr box \<Rightarrow>
                    (let merged1 = copy_style p (merged0\<lparr>Coords := Some (points_from_xywh box)\<rparr>);
                         merged2 = (if Glyph p \<noteq> [] \<or> Glyph n \<noteq> []
                                    then merged1\<lparr>Glyph := Glyph p @ Glyph n\<rparr> else merged1)
                     in case (if TextEquiv p \<noteq> [] then (TextEquiv p, st)
                              else (case new_textequiv (TextEquivType [] (Some 1)) st of
                                      (r, st') \<Rightarrow> ([r], st'))) of
                          (tes, st1) \<Rightarrow>
                            (let merged3 = merged2\<lparr>TextEquiv := tes\<rparr>;
                                 st2 =
                                   (if TextEquiv n \<noteq> []
                                    then (let r = hd tes;
                                              r2 = hd (TextEquiv n);
                                              objs = textequiv_objs st1;
                                              objs1 = objs[r := (objs ! r)
                                                \<lparr>Unicode := Unicode (objs ! r) @ Unicode (objs ! r2)\<rparr>];
                                              objs2 =
                                                (if conf_truthy (conf (objs1 ! r))
                                                    \<and> conf_truthy (conf (objs1 ! r2))
                                                 then objs1[r := (objs1 ! r)
                                                   \<lparr>conf := Some (the (conf (objs1 ! r))
                                                               * the (conf (objs1 ! r2)))\<rparr>]
                                                 else objs1)
                                          in st1\<lparr>textequiv_objs := objs2\<rparr>)
                                    else st1)
                             in Inr (new_word merged3 st2))))))"

text \<open>
  \<open>list.index\<close> on a list of objects, which are compared by identity, and
  \<open>_split_word_at_glyph\<close>, which does not set text results.
\<close>

fun obj_index :: "ref \<Rightarrow> ref list \<Rightarrow> error + nat" where
  "obj_index r [] = Inl ValueError"
| "obj_index r (x # xs) =
     (if x = r then Inr 0
      else case obj_index r xs of Inl e \<Rightarrow> Inl e | Inr n \<Rightarrow> Inr (Suc n))"

definition split_word_at_glyph ::
  "(ref, ref) word \<Rightarrow> ref \<Rightarrow> glyph_obj \<Rightarrow> error + ((ref, ref) word \<times> (ref, ref) word)" where
  "split_word_at_glyph word glyph_ref glyph =
     (let prev0 = WordType (word_id word @ ''_l'');
          next0 = WordType (word_id word @ ''_r'')
      in case glyph_Coords glyph of
           None \<Rightarrow> Inl AttributeError
         | Some glyph_points \<Rightarrow>
            (case xywh_from_points glyph_points of
               Inl e \<Rightarrow> Inl e
             | Inr xywh_glyph \<Rightarrow>
                (case Coords word of
                   None \<Rightarrow> Inl AttributeError
                 | Some word_points \<Rightarrow>
                    (case xywh_from_points word_points of
                       Inl e \<Rightarrow> Inl e
                     | Inr xywh_word \<Rightarrow>
                        (let xywh_prev = xywh_word\<lparr>box_w := box_x xywh_glyph - box_x xywh_word\<rparr>;
                             prev1 = prev0\<lparr>Coords := Some (points_from_xywh xywh_prev)\<rparr>;
                             xywh_next = xywh_word\<lparr>box_x := box_x xywh_glyph - box_w xywh_glyph,
                                                    box_w := box_w xywh_word - box_w xywh_prev\<rparr>;
                             next1 = next0\<lparr>Coords := Some (points_from_xywh xywh_next)\<rparr>;
                             prev2 = copy_style word prev1;
                             next2 = copy_style word next1;
                             glyphs = Glyph word
                         in case obj_index glyph_ref glyphs of
                              Inl e \<Rightarrow> Inl e
                            | Inr pos \<Rightarrow>
                                Inr (prev2\<lparr>Glyph := take pos glyphs\<rparr>,
                                     next2\<lparr>Glyph := drop (pos + 1) glyphs\<rparr>))))))"

text \<open>
  The loop of \<open>_resegment_sequence\<close> that splits a word at every space: \<open>next_\<close> is split
  as long as the second part still has a space in its first text result.  It works on
  new words only, so they are held by value here and put into the store afterwards.
  The content of the second part is shorter than that of the word that was split,
  which is why the loop ends.
\<close>

definition first_content :: "(textequiv, 'g) word \<Rightarrow> ustring" where
  "first_content word = (case TextEquiv word of [] \<Rightarrow> [] | t # _ \<Rightarrow> Unicode t)"

lemma str_index_less: "str_index c s = Inr p \<Longrightarrow> p < length s"
  by (induction s arbitrary: p) (auto split: if_splits sum.splits)

lemma split_word_at_space_shorter:
  "split_word_at_space word = Inr (prev_w, next_w)
   \<Longrightarrow> length (first_content next_w) < length (first_content word)"
  by (auto simp: split_word_at_space_def Let_def first_content_def TextEquivType_def
      split: option.splits sum.splits list.splits dest!: str_index_less)

function split_loop :: "(textequiv, 'g) word \<Rightarrow> error + (textequiv, 'g) word list" where
  "split_loop next_w =
     (case split_word_at_space next_w of
        Inl e \<Rightarrow> Inl e
      | Inr (prev_w, next1) \<Rightarrow>
          (if SP \<in> set (first_content next1)
           then (case split_loop next1 of Inl e \<Rightarrow> Inl e | Inr parts \<Rightarrow> Inr (prev_w # parts))
           else Inr [prev_w, next1]))"
  by pat_completeness auto
termination
  by (relation "measure (\<lambda>w. length (first_content w))")
     (auto dest: split_word_at_space_shorter)

declare split_loop.simps [simp del]


text \<open>
  A word of the store with its text results looked up, and the words made by a split
  put into the store.
\<close>

definition word_value :: "store \<Rightarrow> (ref, ref) word \<Rightarrow> (textequiv, ref) word" where
  "word_value st w = \<lparr>word_id = word_id w, Coords = Coords w, language = language w,
     TextStyle = TextStyle w, Glyph = Glyph w,
     TextEquiv = map (\<lambda>r. textequiv_objs st ! r) (TextEquiv w)\<rparr>"

fun new_textequivs :: "textequiv list \<Rightarrow> store \<Rightarrow> ref list \<times> store" where
  "new_textequivs [] st = ([], st)"
| "new_textequivs (t # ts) st =
     (case new_textequiv t st of
        (r, st1) \<Rightarrow> (case new_textequivs ts st1 of (rs, st2) \<Rightarrow> (r # rs, st2)))"

definition new_part :: "(textequiv, ref) word \<Rightarrow> store \<Rightarrow> ref \<times> store" where
  "new_part w st =
     (case new_textequivs (TextEquiv w) st of
        (rs, st1) \<Rightarrow>
          new_word \<lparr>word_id = word_id w, Coords = Coords w, language = language w,
                    TextStyle = TextStyle w, Glyph = Glyph w, TextEquiv = rs\<rparr> st1)"

fun new_parts :: "(textequiv, ref) word list \<Rightarrow> store \<Rightarrow> ref list \<times> store" where
  "new_parts [] st = ([], st)"
| "new_parts (w # ws) st =
     (case new_part w st of
        (r, st1) \<Rightarrow> (case new_parts ws st1 of (rs, st2) \<Rightarrow> (r # rs, st2)))"

fun new_words :: "(ref, ref) word list \<Rightarrow> store \<Rightarrow> ref list \<times> store" where
  "new_words [] st = ([], st)"
| "new_words (w # ws) st =
     (case new_word w st of
        (r, st1) \<Rightarrow> (case new_words ws st1 of (rs, st2) \<Rightarrow> (r # rs, st2)))"

text \<open>
  \<open>textline.set_Word\<close>; the \<open>reduce\<close> that puts the parts in the place of the word that
  was split; and \<open>textline.id\<close>, read for the log messages, which fails if the entry
  has no line.
\<close>

definition set_Word :: "ref \<Rightarrow> ref list \<Rightarrow> store \<Rightarrow> store" where
  "set_Word l ws st = st\<lparr>line_words := (line_words st)[l := ws]\<rparr>"

definition replace_word :: "ref \<Rightarrow> ref list \<Rightarrow> ref list \<Rightarrow> ref list" where
  "replace_word key parts ws = concat (map (\<lambda>w. if w = key then parts else [w]) ws)"

definition line_id :: "ref option \<Rightarrow> store \<Rightarrow> error + store" where
  "line_id textline st = (case textline of None \<Rightarrow> Inl AttributeError | Some l \<Rightarrow> Inr st)"

text \<open>
  The body of the loop of \<open>_resegment_sequence\<close> for entry \<open>i\<close>.  An entry of the
  sequence holds the references to a text result, to a word and to a line, the latter
  two optional.  For an implicit whitespace element that has become empty, the words
  of the neighbouring entries are merged, and in the list of words of the line the
  second is dropped and the first replaced by the merged word.  For any other element
  with a space in its content, its word is split.
\<close>

definition resegment_entry ::
  "level \<Rightarrow> (ref \<times> ref option \<times> ref option) list \<Rightarrow> nat \<Rightarrow> store \<Rightarrow> error + store" where
  "resegment_entry level sequence i st =
     (let te = fst (sequence ! i);
          word = fst (snd (sequence ! i));
          textline = snd (snd (sequence ! i));
          textequiv = textequiv_objs st ! te
      in if index textequiv = Some (- 1) then
           (if Unicode textequiv = [] then
              (if i = 0 \<or> i = length sequence - 1 then line_id textline st
               else
                 (case fst (snd (sequence ! (i - 1))) of
                    None \<Rightarrow> line_id textline st
                  | Some prev_word \<Rightarrow>
                     (case fst (snd (sequence ! (i + 1))) of
                        None \<Rightarrow> line_id textline st
                      | Some next_word \<Rightarrow>
                         (case merge_words st prev_word next_word of
                            Inl e \<Rightarrow> Inl e
                          | Inr m \<Rightarrow>
                             (case textline of
                                None \<Rightarrow> Inl AttributeError
                              | Some l \<Rightarrow>
                                 Inr (set_Word l
                                        (map (\<lambda>w. if w = prev_word then fst m else w)
                                           (filter (\<lambda>w. w \<noteq> next_word)
                                              (line_words (snd m) ! l)))
                                        (snd m)))))))
            else Inr st)
         else if SP \<in> set (Unicode textequiv) then
           (case word of
              None \<Rightarrow> line_id textline st
            | Some w \<Rightarrow>
               (case (if level = LevelGlyph
                      then (case find (\<lambda>g. te \<in> set (glyph_refs (glyph_objs st ! g)))
                                   (Glyph (word_objs st ! w)) of
                              None \<Rightarrow> Inl StopIteration
                            | Some g \<Rightarrow>
                               (case split_word_at_glyph (word_objs st ! w) g (glyph_objs st ! g) of
                                  Inl e \<Rightarrow> Inl e
                                | Inr pn \<Rightarrow> Inr (new_words [fst pn, snd pn] st)))
                      else (case split_loop (word_value st (word_objs st ! w)) of
                              Inl e \<Rightarrow> Inl e
                            | Inr parts \<Rightarrow> Inr (new_parts parts st))) of
                  Inl e \<Rightarrow> Inl e
                | Inr ps \<Rightarrow>
                   (case textline of
                      None \<Rightarrow> Inl AttributeError
                    | Some l \<Rightarrow>
                       Inr (set_Word l (replace_word w (fst ps) (line_words (snd ps) ! l))
                              (snd ps)))))
         else Inr st)"

fun resegment_loop ::
  "level \<Rightarrow> (ref \<times> ref option \<times> ref option) list \<Rightarrow> nat list \<Rightarrow> store \<Rightarrow> error + store" where
  "resegment_loop level sequence [] st = Inr st"
| "resegment_loop level sequence (i # rest) st =
     (case resegment_entry level sequence i st of
        Inl e \<Rightarrow> Inl e
      | Inr st1 \<Rightarrow> resegment_loop level sequence rest st1)"

definition resegment_sequence ::
  "level \<Rightarrow> (ref \<times> ref option \<times> ref option) list \<Rightarrow> store \<Rightarrow> error + store" where
  "resegment_sequence level sequence st =
     resegment_loop level sequence [0..<length sequence] st"

text \<open>
  What a line shows: for every word in its list, the identifier and the content and
  confidence of its text results.
\<close>

definition line_contents :: "store \<Rightarrow> ref \<Rightarrow> (string \<times> (ustring \<times> real option) list) list" where
  "line_contents st l =
     map (\<lambda>w. (word_id (word_objs st ! w),
                map (\<lambda>r. (Unicode (textequiv_objs st ! r), conf (textequiv_objs st ! r)))
                  (TextEquiv (word_objs st ! w))))
       (line_words st ! l)"

text \<open>
  A line with the words \<open>a\<close>, \<open>b\<close> and \<open>c\<close> at the level of words, as \<open>_update_sequence\<close>
  leaves it: the sequence has the three words, the two implicit spaces between them
  (entered with the word that follows) and the implicit newline.  The second space
  has been deleted; the content of the first space and the confidence of \<open>c\<close> are
  left open.
\<close>

definition ex_box_word :: "string \<Rightarrow> int \<Rightarrow> ref \<Rightarrow> (ref, ref) word" where
  "ex_box_word i x r = \<lparr>word_id = i,
     Coords = Some [(x, 0), (x + 10, 0), (x + 10, 10), (x, 10)],
     language = None, TextStyle = None, Glyph = [], TextEquiv = [r]\<rparr>"

definition ex_store :: "ustring \<Rightarrow> real \<Rightarrow> store" where
  "ex_store s1 c = \<lparr>textequiv_objs =
       [\<lparr>Unicode = [97], conf = Some (1 / 2), index = None\<rparr>,
        \<lparr>Unicode = s1, conf = Some 1, index = Some (- 1)\<rparr>,
        \<lparr>Unicode = [98], conf = Some (1 / 2), index = None\<rparr>,
        \<lparr>Unicode = [], conf = Some 1, index = Some (- 1)\<rparr>,
        \<lparr>Unicode = [99], conf = Some c, index = None\<rparr>,
        \<lparr>Unicode = [10], conf = Some 1, index = Some (- 1)\<rparr>],
     word_objs = [ex_box_word ''A'' 0 0, ex_box_word ''B'' 20 2, ex_box_word ''C'' 40 4],
     glyph_objs = [],
     line_words = [[0, 1, 2]]\<rparr>"

definition ex_sequence :: "(ref \<times> ref option \<times> ref option) list" where
  "ex_sequence = [(0, Some 0, Some 0), (1, Some 1, Some 0), (2, Some 1, Some 0),
     (3, Some 2, Some 0), (4, Some 2, Some 0), (5, Some 2, Some 0)]"

text \<open>
  The line \<open>a b c\<close> at the level of words as the extraction yields it: the start
  positions with the text results, with the words and with the line, and a soft
  alignment of the output \<open>abc\<close> with it.
\<close>

definition ex_abc :: "(nat \<times> textequiv) list" where
  "ex_abc = [(0, \<lparr>Unicode = [97], conf = Some 1, index = None\<rparr>),
     (1, \<lparr>Unicode = [32], conf = Some 1, index = Some (- 1)\<rparr>),
     (2, \<lparr>Unicode = [98], conf = Some 1, index = None\<rparr>),
     (3, \<lparr>Unicode = [32], conf = Some 1, index = Some (- 1)\<rparr>),
     (4, \<lparr>Unicode = [99], conf = Some 1, index = None\<rparr>),
     (5, \<lparr>Unicode = [10], conf = Some 1, index = Some (- 1)\<rparr>)]"

definition ex_abc_words :: "(nat \<times> nat option) list" where
  "ex_abc_words = [(0, Some 0), (1, Some 1), (2, Some 1), (3, Some 2), (4, Some 2), (5, Some 2)]"

definition ex_abc_lines :: "(nat \<times> nat option) list" where
  "ex_abc_lines = [(0, Some 0), (1, Some 0), (2, Some 0), (3, Some 0), (4, Some 0), (5, Some 0)]"

definition ex_alignment_abc :: "int list list" where
  "ex_alignment_abc =
     [[1, 0, 0, 0, 0, 0],
      [0, 0, 1, 0, 0, 0],
      [0, 0, 0, 0, 1, 0],
      [0, 0, 0, 0, 0, 1]]"

text \<open>
  The invariant of the backward pass at the loop head: the end of the line is in the
  path, every other entry lies at or beyond the current cell and inside the array,
  and the entries are non-decreasing.
\<close>

definition path_inv :: "nat \<Rightarrow> nat \<Rightarrow> (nat \<rightharpoonup> nat) \<Rightarrow> int \<Rightarrow> int \<Rightarrow> bool" where
  "path_inv i_max j_max r i j =
     (r i_max = Some j_max
      \<and> (\<forall>k v. r k = Some v \<longrightarrow> k \<noteq> i_max \<longrightarrow> i \<le> int k \<and> j \<le> int v \<and> k < i_max \<and> v < j_max)
      \<and> (\<forall>k1 k2 v1 v2. r k1 = Some v1 \<longrightarrow> r k2 = Some v2 \<longrightarrow> k1 < k2 \<longrightarrow> v1 \<le> v2))"

text \<open>A soft alignment of three input against two output positions.\<close>

definition example_alignment :: "int list list" where
  "example_alignment = [[1, 0, 0], [0, 1, 0]]"



section \<open>Properties of splitting\<close>


lemma copy_style_fields [simp]:
  "Coords (copy_style w n) = Coords n"
  "TextEquiv (copy_style w n) = TextEquiv n"
  "word_id (copy_style w n) = word_id n"
  by (simp_all add: copy_style_def Let_def)

lemma int_of_float_of_int [simp]: "int_of_float (of_int k) = k"
  by (simp add: int_of_float_def)







lemma int_of_float_of_int_add [simp]: "int_of_float (of_int a + of_int b) = a + b"
  using int_of_float_of_int [of "a + b"] by (simp del: int_of_float_of_int)






section \<open>Properties of the aligner\<close>

lemma covers_lookup2:
  assumes "covers alignment i_max j_max" "i < i_max" "j < j_max"
  shows "lookup2 alignment j i = Inr (alignment ! j ! i)"
proof -
  from assms have len: "j < length alignment" by (simp add: covers_def)
  from assms have "i_max \<le> length (take j_max alignment ! j)"
    by (simp add: covers_def list_all_length)
  with assms have "i < length (alignment ! j)" by simp
  with len show ?thesis by (simp add: lookup2_def)
qed

lemma advance_last:
  "i + 1 = i_max \<Longrightarrow> j + 1 = j_max
   \<Longrightarrow> advance alignment i_max j_max min_score i j = Inr (i_max, j_max)"
  by (subst advance.simps) simp

lemma advance_wrap_hit:
  "i + 1 = i_max \<Longrightarrow> j + 1 \<noteq> j_max \<Longrightarrow> lookup2 alignment (j + 1) 0 = Inr a \<Longrightarrow> min_score < a
   \<Longrightarrow> advance alignment i_max j_max min_score i j = Inr (0, j + 1)"
  by (subst advance.simps) simp

lemma advance_wrap_skip:
  "i + 1 = i_max \<Longrightarrow> j + 1 \<noteq> j_max \<Longrightarrow> lookup2 alignment (j + 1) 0 = Inr a \<Longrightarrow> \<not> min_score < a
   \<Longrightarrow> advance alignment i_max j_max min_score i j
       = advance alignment i_max j_max min_score 0 (j + 1)"
  by (subst advance.simps) simp

lemma advance_hit:
  "i + 1 \<noteq> i_max \<Longrightarrow> lookup2 alignment j (i + 1) = Inr a \<Longrightarrow> min_score < a
   \<Longrightarrow> advance alignment i_max j_max min_score i j = Inr (i + 1, j)"
  by (subst advance.simps) simp

lemma advance_skip:
  "i + 1 \<noteq> i_max \<Longrightarrow> lookup2 alignment j (i + 1) = Inr a \<Longrightarrow> \<not> min_score < a
   \<Longrightarrow> advance alignment i_max j_max min_score i j
       = advance alignment i_max j_max min_score (i + 1) j"
  by (subst advance.simps) simp

lemma forward_stop:
  "\<not> (i < i_max \<and> j < j_max)
   \<Longrightarrow> forward alignment i_max j_max min_score viterbi_fw i j = Inr viterbi_fw"
  by (subst forward.simps) (simp only: if_False)

lemma forward_step:
  "i < i_max \<Longrightarrow> j < j_max \<Longrightarrow> lookup2 alignment j i = Inr a
   \<Longrightarrow> advance alignment i_max j_max min_score i j = Inr (i', j')
   \<Longrightarrow> forward alignment i_max j_max min_score viterbi_fw i j
       = forward alignment i_max j_max min_score
           (viterbi_fw((i, j) := a + max (if 0 < i then viterbi_fw (i - 1, j) else 0)
              (max (if 0 < j then viterbi_fw (i, j - 1) else 0)
                   (if 0 < i \<and> 0 < j then viterbi_fw (i - 1, j - 1) else 0)))) i' j'"
  by (subst forward.simps) (simp add: Let_def)

lemma backward_stop:
  "\<not> (0 \<le> i \<and> 0 \<le> j)
   \<Longrightarrow> backward viterbi_fw i_max j_max realignment i j = Inr (realignment(0 \<mapsto> 0))"
  by (subst backward.simps) (simp only: if_False)

lemma backward_step:
  "0 \<le> i \<Longrightarrow> 0 \<le> j \<Longrightarrow> i < int i_max \<Longrightarrow> j < int j_max
   \<Longrightarrow> bw_next viterbi_fw i_max j_max i j = (i', j')
   \<Longrightarrow> backward viterbi_fw i_max j_max realignment i j
       = backward viterbi_fw i_max j_max (realignment(nat i \<mapsto> nat j)) i' j'"
  by (subst backward.simps) simp

lemma advance_returns:
  "covers alignment i_max j_max \<Longrightarrow> i < i_max \<Longrightarrow> j < j_max
   \<Longrightarrow> \<exists>c. advance alignment i_max j_max min_score i j = Inr c"
proof (induction alignment i_max j_max min_score i j rule: advance.induct)
  case (1 alignment i_max j_max min_score i j)
  show ?case
  proof (cases "i + 1 = i_max")
    case wrap: True
    show ?thesis
    proof (cases "j + 1 = j_max")
      case True
      with wrap show ?thesis by (simp add: advance_last)
    next
      case False
      with "1.prems" have jlt: "j + 1 < j_max" by simp
      from "1.prems" have ipos: "0 < i_max" by simp
      note a = covers_lookup2 [OF "1.prems"(1) ipos jlt]
      show ?thesis
      proof (cases "min_score < alignment ! (j + 1) ! 0")
        case True
        from advance_wrap_hit [OF wrap False a True] show ?thesis by simp
      next
        case nb: False
        from "1.IH"(1) [OF wrap False a nb "1.prems"(1) ipos jlt]
          advance_wrap_skip [OF wrap False a nb]
        show ?thesis by simp
      qed
    qed
  next
    case False
    with "1.prems" have ilt: "i + 1 < i_max" by simp
    note a = covers_lookup2 [OF "1.prems"(1) ilt "1.prems"(3)]
    show ?thesis
    proof (cases "min_score < alignment ! j ! (i + 1)")
      case True
      from advance_hit [OF False a True] show ?thesis by simp
    next
      case nb: False
      from "1.IH"(2) [OF False a nb "1.prems"(1) ilt "1.prems"(3)]
        advance_skip [OF False a nb]
      show ?thesis by simp
    qed
  qed
qed

lemma forward_returns:
  "covers alignment i_max j_max
   \<Longrightarrow> \<exists>v. forward alignment i_max j_max min_score viterbi_fw i j = Inr v"
proof (induction alignment i_max j_max min_score viterbi_fw i j rule: forward.induct)
  case (1 alignment i_max j_max min_score viterbi_fw i j)
  show ?case
  proof (cases "i < i_max \<and> j < j_max")
    case False
    then show ?thesis by (simp add: forward_stop)
  next
    case True
    then have ij: "i < i_max" "j < j_max" by simp_all
    note a = covers_lookup2 [OF "1.prems" ij]
    from advance_returns [OF "1.prems" ij] obtain i' j' where
      adv: "advance alignment i_max j_max min_score i j = Inr (i', j')"
      by (metis surj_pair)
    from "1.IH" [OF True refl refl refl a adv refl "1.prems"]
    show ?thesis by (simp only: forward_step [OF ij a adv])
  qed
qed

lemma argmax_aux_bound: "bi < k \<Longrightarrow> argmax_aux best bi k vs < k + length vs"
proof (induction vs arbitrary: best bi k)
  case Nil
  then show ?case by simp
next
  case (Cons v vs)
  have "argmax_aux v k (Suc k) vs < Suc k + length vs"
    by (rule Cons.IH) simp
  moreover have "argmax_aux best bi (Suc k) vs < Suc k + length vs"
    using Cons.prems by (intro Cons.IH) simp
  ultimately show ?case by simp
qed

lemma argmax_bound: "argmax vs = Inr k \<Longrightarrow> k < length vs"
  using argmax_aux_bound [of 0 1] by (cases vs) auto

lemma argmax_returns: "vs \<noteq> [] \<Longrightarrow> \<exists>k. argmax vs = Inr k"
  by (cases vs) auto

lemma start_i_bound: "start_i viterbi_fw i_max j_max = Inr i \<Longrightarrow> - 1 \<le> i \<and> i < int i_max"
  by (auto simp: start_i_def Let_def split: if_splits sum.splits dest!: argmax_bound)

lemma start_j_bound: "start_j viterbi_fw i_max j_max = Inr j \<Longrightarrow> - 1 \<le> j \<and> j < int j_max"
  by (auto simp: start_j_def Let_def split: if_splits sum.splits dest!: argmax_bound)

lemma start_i_returns:
  assumes "1 \<le> j_max"
  shows "\<exists>i. start_i viterbi_fw i_max j_max = Inr i"
proof (cases "i_max \<le> j_max")
  case True
  then show ?thesis by (simp add: start_i_def)
next
  case False
  define first where "first = (if j_max < 2 then 0 else j_max - 2)"
  with False have "map (\<lambda>r. viterbi_fw (r, j_max - 1)) [first ..< i_max] \<noteq> []"
    by (simp; arith)
  from argmax_returns [OF this] obtain k where
    "argmax (map (\<lambda>r. viterbi_fw (r, j_max - 1)) [first ..< i_max]) = Inr k" ..
  with False assms show ?thesis
    by (simp add: start_i_def first_def)
qed

lemma start_j_returns:
  assumes "1 \<le> i_max"
  shows "\<exists>j. start_j viterbi_fw i_max j_max = Inr j"
proof (cases "j_max \<le> i_max")
  case True
  then show ?thesis by (simp add: start_j_def)
next
  case False
  define first where "first = (if i_max < 2 then 0 else i_max - 2)"
  with False have "map (\<lambda>c. viterbi_fw (i_max - 1, c)) [first ..< j_max] \<noteq> []"
    by (simp; arith)
  from argmax_returns [OF this] obtain k where
    "argmax (map (\<lambda>c. viterbi_fw (i_max - 1, c)) [first ..< j_max]) = Inr k" ..
  with False assms show ?thesis
    by (simp add: start_j_def first_def)
qed

lemma bw_next_cases:
  "bw_next viterbi_fw i_max j_max i j = (i', j')
   \<Longrightarrow> (i' = i - 1 \<and> j' = j) \<or> (i' = i \<and> j' = j - 1) \<or> (i' = i - 1 \<and> j' = j - 1)"
  by (auto simp: bw_next_def split: if_splits)

lemma path_inv_init: "path_inv i_max j_max [i_max \<mapsto> j_max] i j"
  by (auto simp: path_inv_def split: if_splits)

lemma path_inv_step:
  assumes inv: "path_inv i_max j_max r i j"
    and ij: "0 \<le> i" "0 \<le> j" "i < int i_max" "j < int j_max"
    and le: "i' \<le> i" "j' \<le> j"
  shows "path_inv i_max j_max (r(nat i \<mapsto> nat j)) i' j'"
proof -
  from inv have top: "r i_max = Some j_max"
    and low: "\<And>k v. r k = Some v \<Longrightarrow> k \<noteq> i_max
       \<Longrightarrow> i \<le> int k \<and> j \<le> int v \<and> k < i_max \<and> v < j_max"
    and mono: "\<And>k1 k2 v1 v2. r k1 = Some v1 \<Longrightarrow> r k2 = Some v2 \<Longrightarrow> k1 < k2 \<Longrightarrow> v1 \<le> v2"
    by (auto simp: path_inv_def)
  have a: "(r(nat i \<mapsto> nat j)) i_max = Some j_max"
    using top ij by auto
  have b: "i' \<le> int k \<and> j' \<le> int v \<and> k < i_max \<and> v < j_max"
    if "(r(nat i \<mapsto> nat j)) k = Some v" "k \<noteq> i_max" for k v
  proof (cases "k = nat i")
    case True
    with that ij le show ?thesis by auto
  next
    case False
    with that have "r k = Some v" by simp
    from low [OF this that(2)] le show ?thesis by simp
  qed
  have c: "v1 \<le> v2"
    if a: "(r(nat i \<mapsto> nat j)) k1 = Some v1" "(r(nat i \<mapsto> nat j)) k2 = Some v2" "k1 < k2"
    for k1 k2 v1 v2
  proof (cases "k1 = nat i")
    case k1: True
    with a have v1: "v1 = nat j" by simp
    from k1 a(3) have "k2 \<noteq> nat i" by simp
    with a(2) have r2: "r k2 = Some v2" by simp
    show ?thesis
    proof (cases "k2 = i_max")
      case True
      with r2 top have "v2 = j_max" by simp
      with v1 ij show ?thesis by simp
    next
      case False
      from low [OF r2 False] v1 ij show ?thesis by linarith
    qed
  next
    case False
    with a(1) have r1: "r k1 = Some v1" by simp
    show ?thesis
    proof (cases "k2 = nat i")
      case True
      with a(3) ij have "k1 \<noteq> i_max" by simp
      from low [OF r1 this] True a(3) ij show ?thesis by linarith
    next
      case False
      with a(2) have "r k2 = Some v2" by simp
      from mono [OF r1 this a(3)] show ?thesis .
    qed
  qed
  from a b c show ?thesis
    unfolding path_inv_def by blast
qed

lemma backward_path:
  assumes "path_inv i_max j_max r i j" "i < int i_max" "j < int j_max" "1 \<le> i_max"
  shows "\<exists>p. backward viterbi_fw i_max j_max r i j = Inr p \<and> p 0 = Some 0
     \<and> p i_max = Some j_max
     \<and> (\<forall>k1 k2 v1 v2. p k1 = Some v1 \<longrightarrow> p k2 = Some v2 \<longrightarrow> k1 < k2 \<longrightarrow> v1 \<le> v2)"
  using assms
proof (induction viterbi_fw i_max j_max r i j rule: backward.induct)
  case (1 viterbi_fw i_max j_max r i j)
  show ?case
  proof (cases "0 \<le> i \<and> 0 \<le> j")
    case False
    from "1.prems"(1) have top: "r i_max = Some j_max"
      and mono: "\<And>k1 k2 v1 v2. r k1 = Some v1 \<Longrightarrow> r k2 = Some v2 \<Longrightarrow> k1 < k2 \<Longrightarrow> v1 \<le> v2"
      by (auto simp: path_inv_def)
    have "\<forall>k1 k2 v1 v2. (r(0 \<mapsto> 0)) k1 = Some v1 \<longrightarrow> (r(0 \<mapsto> 0)) k2 = Some v2
        \<longrightarrow> k1 < k2 \<longrightarrow> v1 \<le> v2"
      using mono by (auto split: if_splits)
    with top "1.prems"(4) backward_stop [OF False, of viterbi_fw i_max j_max r]
    show ?thesis by simp
  next
    case True
    obtain i' j' where nx: "bw_next viterbi_fw i_max j_max i j = (i', j')"
      by (cases "bw_next viterbi_fw i_max j_max i j")
    from bw_next_cases [OF nx] have le: "i' \<le> i" "j' \<le> j" by auto
    from True have ij: "0 \<le> i" "0 \<le> j" by simp_all
    note inv = path_inv_step [OF "1.prems"(1) ij "1.prems"(2,3) le]
    from le "1.prems" have lt: "i' < int i_max" "j' < int j_max" by simp_all
    from "1.IH" [OF True _ nx [symmetric] inv lt "1.prems"(4)] "1.prems"(2,3)
    show ?thesis
      by (simp only: backward_step [OF ij "1.prems"(2,3) nx])
  qed
qed

text \<open>
  Claim C1.  For a soft alignment that covers the rectangle and lengths \<open>I \<ge> 1\<close>,
  \<open>J \<ge> 1\<close>, \<open>_alignment2path\<close> returns a path that maps \<open>0\<close> to \<open>0\<close> and \<open>I\<close> to
  \<open>J\<close> and is non-decreasing: of two keys, the larger has the larger or equal value.
\<close>

theorem alignment2path_endpoints_monotone:
  assumes "covers alignment i_max j_max" "1 \<le> i_max" "1 \<le> j_max"
  shows "\<exists>path. alignment2path alignment i_max j_max min_score = Inr path
     \<and> path 0 = Some 0 \<and> path i_max = Some j_max
     \<and> (\<forall>i1 i2 j1 j2. path i1 = Some j1 \<longrightarrow> path i2 = Some j2 \<longrightarrow> i1 < i2 \<longrightarrow> j1 \<le> j2)"
proof -
  from forward_returns [OF assms(1)] obtain v where
    v: "forward alignment i_max j_max min_score (\<lambda>_. 0) 0 0 = Inr v" by blast
  from start_i_returns [OF assms(3)] obtain i where i: "start_i v i_max j_max = Inr i" ..
  from start_j_returns [OF assms(2)] obtain j where j: "start_j v i_max j_max = Inr j" ..
  from start_i_bound [OF i] start_j_bound [OF j]
  have lt: "i < int i_max" "j < int j_max" by simp_all
  from backward_path [OF path_inv_init lt assms(2), of v] v i j
  show ?thesis by (simp add: alignment2path_def)
qed


lemma advance_progress:
  assumes "advance alignment i_max j_max min_score i j = Inr (i', j')" "i < i_max" "j < j_max"
  shows "j * i_max + i < j' * i_max + i' \<and> i' \<le> i_max \<and> j' \<le> j_max"
proof -
  from advance_cursor [OF assms]
  consider "j' = j" "i < i'" "i' < i_max" | "j < j'" "j' < j_max" "i' < i_max"
    | "i' = i_max" "j' = j_max"
    by blast
  then show ?thesis
  proof cases
    case 1
    with assms show ?thesis by simp
  next
    case 2
    then have "Suc j \<le> j'" by simp
    then have "Suc j * i_max \<le> j' * i_max" by (rule mult_le_mono1)
    with assms 2 show ?thesis by simp
  next
    case 3
    from assms have "Suc j \<le> j_max" by simp
    then have "Suc j * i_max \<le> j_max * i_max" by (rule mult_le_mono1)
    with assms 3 show ?thesis by simp
  qed
qed

lemma bw_next_decreases:
  "bw_next viterbi_fw i_max j_max i j = (i', j')
   \<Longrightarrow> i' + j' < i + j \<and> i - 1 \<le> i' \<and> i' \<le> i \<and> j - 1 \<le> j' \<and> j' \<le> j"
  by (drule bw_next_cases) auto

text \<open>
  Claim C5.  \<open>_alignment2path\<close> terminates for every soft alignment that covers the
  rectangle and all lengths \<open>I \<ge> 1\<close>, \<open>J \<ge> 1\<close>, and returns a path.  The forward sweep
  moves its cursor strictly forward in scan order, never beyond \<open>(I, J)\<close>; every step
  of the backward walk strictly decreases \<open>i + j\<close> and leaves the loop at \<open>-1\<close> at the
  latest.  (All functions of the model are total: each loop has a termination proof.)
\<close>

theorem alignment2path_terminates:
  fixes alignment :: "('a::{plus,zero,linorder}) list list"
  assumes "covers alignment i_max j_max" "1 \<le> i_max" "1 \<le> j_max"
  shows "(\<exists>path. alignment2path alignment i_max j_max min_score = Inr path)
     \<and> (\<forall>i j. i < i_max \<longrightarrow> j < j_max \<longrightarrow>
          (\<exists>i' j'. advance alignment i_max j_max min_score i j = Inr (i', j')
             \<and> j * i_max + i < j' * i_max + i' \<and> i' \<le> i_max \<and> j' \<le> j_max))
     \<and> (\<forall>viterbi_fw i j. 0 \<le> i \<longrightarrow> 0 \<le> j \<longrightarrow>
          (case bw_next (viterbi_fw :: nat \<times> nat \<Rightarrow> 'a) i_max j_max i j of
             (i', j') \<Rightarrow> i' + j' < i + j \<and> - 1 \<le> i' \<and> - 1 \<le> j'))"
proof (intro conjI allI impI)
  from forward_returns [OF assms(1)] obtain v where
    v: "forward alignment i_max j_max min_score (\<lambda>_. 0) 0 0 = Inr v" by blast
  from start_i_returns [OF assms(3)] obtain i where i: "start_i v i_max j_max = Inr i" ..
  from start_j_returns [OF assms(2)] obtain j where j: "start_j v i_max j_max = Inr j" ..
  from start_i_bound [OF i] start_j_bound [OF j]
  have lt: "i < int i_max" "j < int j_max" by simp_all
  from backward_path [OF path_inv_init lt assms(2), of v] v i j
  show "\<exists>path. alignment2path alignment i_max j_max min_score = Inr path"
    by (auto simp: alignment2path_def)
next
  fix i j assume ij: "i < i_max" "j < j_max"
  from advance_returns [OF assms(1) ij] obtain i' j' where
    adv: "advance alignment i_max j_max min_score i j = Inr (i', j')"
    by (metis surj_pair)
  from advance_progress [OF adv ij] adv
  show "\<exists>i' j'. advance alignment i_max j_max min_score i j = Inr (i', j')
      \<and> j * i_max + i < j' * i_max + i' \<and> i' \<le> i_max \<and> j' \<le> j_max"
    by blast
next
  fix viterbi_fw :: "nat \<times> nat \<Rightarrow> 'a" and i j :: int
  assume ij: "0 \<le> i" "0 \<le> j"
  obtain i' j' where nx: "bw_next viterbi_fw i_max j_max i j = (i', j')"
    by (cases "bw_next viterbi_fw i_max j_max i j")
  from bw_next_decreases [OF nx] ij nx
  show "case bw_next viterbi_fw i_max j_max i j of
          (i', j') \<Rightarrow> i' + j' < i + j \<and> - 1 \<le> i' \<and> - 1 \<le> j'"
    by simp
qed

theorem alignment2path_endpoints_monotone_witness:
  "covers example_alignment 3 2 \<and> (1::nat) \<le> 3 \<and> (1::nat) \<le> 2
   \<and> (\<exists>path. alignment2path example_alignment 3 2 0 = Inr path
        \<and> path 0 = Some 0 \<and> path 3 = Some 2
        \<and> (\<forall>i1 i2 j1 j2. path i1 = Some j1 \<longrightarrow> path i2 = Some j2 \<longrightarrow> i1 < i2 \<longrightarrow> j1 \<le> j2))"
proof -
  have c: "covers example_alignment 3 2" by code_simp
  from alignment2path_endpoints_monotone [OF c, of 0] c show ?thesis by simp
qed

theorem alignment2path_terminates_witness:
  "covers example_alignment 3 2 \<and> (1::nat) \<le> 3 \<and> (1::nat) \<le> 2
   \<and> (\<exists>path. alignment2path example_alignment 3 2 0 = Inr path)
   \<and> advance example_alignment 3 2 0 0 0 = Inr (1, 1)
   \<and> bw_next (\<lambda>c. if c = (0, 0) then 1 else if c = (1, 1) then (2::int) else 0) 3 2 1 1 = (0, 0)"
proof -
  have c: "covers example_alignment 3 2" by code_simp
  have a: "advance example_alignment 3 2 0 0 0 = Inr (1, 1)" by code_simp
  have b: "bw_next (\<lambda>c. if c = (0, 0) then 1 else if c = (1, 1) then (2::int) else 0) 3 2 1 1
     = (0, 0)"
    by (simp add: bw_next_def vread_def)
  from alignment2path_terminates [OF c, of 0] have
    "\<exists>path. alignment2path example_alignment 3 2 0 = Inr path" by simp
  with a b c show ?thesis by simp
qed

section \<open>Properties of line extraction\<close>

lemma update_fresh: "k \<notin> fst ` set al \<Longrightarrow> AList.update k v al = al @ [(k, v)]"
  by (induction al) auto

lemma length_offsets [simp]: "length (offsets i ts) = length ts"
  by (induction ts arbitrary: i) simp_all

lemma offsets_bounds:
  "\<forall>t \<in> set ts. Unicode t \<noteq> [] \<Longrightarrow> k \<in> set (offsets i ts) \<Longrightarrow> i \<le> k"
proof (induction ts arbitrary: i)
  case Nil
  then show ?case by simp
next
  case (Cons t ts)
  then show ?case by (fastforce dest: Cons.IH [rotated])
qed

lemma gap_subst_nonempty [simp]: "Unicode (gap_subst gap t) \<noteq> []"
  by (simp add: gap_subst_def)

lemma line_sequence2strings_gap:
  "mapping gap \<noteq> None \<Longrightarrow> list_ex (\<lambda>e. Unicode (fst e) = []) line_sequence
   \<Longrightarrow> line_sequence2strings mapping gap line_sequence i acc = Inl GapMapped"
  by (induction line_sequence arbitrary: i acc) auto

lemma line_sequence2strings_spans:
  assumes "mapping gap = None \<or> \<not> list_ex (\<lambda>e. Unicode (fst e) = []) line_sequence"
    and "\<forall>k \<in> fst ` set (textequiv_starts acc). k < i"
    and "\<forall>k \<in> fst ` set (word_starts acc). k < i"
    and "\<forall>k \<in> fst ` set (textline_starts acc). k < i"
  shows "line_sequence2strings mapping gap line_sequence i acc =
     Inr \<lparr>line_input = line_input acc
            @ concat (map Unicode (map (\<lambda>e. gap_subst gap (fst e)) line_sequence)),
          line_confs = line_confs acc
            @ concat (map (\<lambda>t. replicate (length (Unicode t)) (conf_float t))
                 (map (\<lambda>e. gap_subst gap (fst e)) line_sequence)),
          textequiv_starts = textequiv_starts acc
            @ zip (offsets i (map (\<lambda>e. gap_subst gap (fst e)) line_sequence))
                (map (\<lambda>e. gap_subst gap (fst e)) line_sequence),
          word_starts = word_starts acc
            @ zip (offsets i (map (\<lambda>e. gap_subst gap (fst e)) line_sequence))
                (map (\<lambda>e. fst (snd e)) line_sequence),
          textline_starts = textline_starts acc
            @ zip (offsets i (map (\<lambda>e. gap_subst gap (fst e)) line_sequence))
                (map (\<lambda>e. snd (snd e)) line_sequence)\<rparr>"
  using assms
proof (induction line_sequence arbitrary: i acc)
  case Nil
  then show ?case by simp
next
  case (Cons e rest)
  obtain t w l where e: "e = (t, w, l)" by (cases e)
  define t' where "t' = gap_subst gap t"
  define j where "j = length (Unicode t')"
  define acc' where "acc' = \<lparr>line_input = line_input acc @ Unicode t',
             line_confs = line_confs acc @ replicate j (conf_float t'),
             textequiv_starts = AList.update i t' (textequiv_starts acc),
             word_starts = AList.update i w (word_starts acc),
             textline_starts = AList.update i l (textline_starts acc)\<rparr>"
  have jpos: "0 < j" by (simp add: j_def t'_def)
  from Cons.prems(1) e have ok: "Unicode t = [] \<Longrightarrow> mapping gap = None" by auto
  have step: "line_sequence2strings mapping gap (e # rest) i acc
      = line_sequence2strings mapping gap rest (i + j) acc'"
    using ok by (simp add: e acc'_def j_def t'_def gap_subst_def)
  have fresh: "i \<notin> fst ` set (textequiv_starts acc)" "i \<notin> fst ` set (word_starts acc)"
    "i \<notin> fst ` set (textline_starts acc)"
    using Cons.prems(2-4) by auto
  have acc'_eq: "textequiv_starts acc' = textequiv_starts acc @ [(i, t')]"
    "word_starts acc' = word_starts acc @ [(i, w)]"
    "textline_starts acc' = textline_starts acc @ [(i, l)]"
    using fresh by (simp_all add: acc'_def update_fresh)
  have keys: "\<forall>k \<in> fst ` set (textequiv_starts acc'). k < i + j"
    "\<forall>k \<in> fst ` set (word_starts acc'). k < i + j"
    "\<forall>k \<in> fst ` set (textline_starts acc'). k < i + j"
    using Cons.prems(2-4) jpos by (auto simp: acc'_eq)
  from Cons.prems(1) have rest: "mapping gap = None
      \<or> \<not> list_ex (\<lambda>e. Unicode (fst e) = []) rest"
    by auto
  have cf: "conf_float t' = conf_float t"
    by (simp add: t'_def gap_subst_def conf_float_def)
  show ?case
    unfolding step Cons.IH [where i = "i + j" and acc = acc', OF rest keys]
    by (simp add: e acc'_def update_fresh fresh t'_def [symmetric] j_def [symmetric])
qed

lemma line_sequences2string_sequences_eq:
  "line_sequences2string_sequences mapping gap line_sequences =
     (if mapping gap \<noteq> None \<and> has_empty line_sequences then Inl GapMapped
      else Inr (map (line_strings_of gap) line_sequences))"
proof (induction line_sequences)
  case Nil
  then show ?case by (simp add: has_empty_def)
next
  case (Cons ls rest)
  show ?case
  proof (cases "mapping gap \<noteq> None \<and> list_ex (\<lambda>e. Unicode (fst e) = []) ls")
    case True
    then show ?thesis
      by (simp add: line_sequence2strings_gap has_empty_def)
  next
    case False
    then have ok: "mapping gap = None \<or> \<not> list_ex (\<lambda>e. Unicode (fst e) = []) ls"
      by blast
    have "line_sequence2strings mapping gap ls 0
             \<lparr>line_input = [], line_confs = [], textequiv_starts = [], word_starts = [],
              textline_starts = []\<rparr> = Inr (line_strings_of gap ls)"
      by (subst line_sequence2strings_spans [of mapping gap ls, OF ok]) (simp_all add: line_strings_of_def Let_def)
    with False Cons.IH show ?thesis
      by (auto simp: has_empty_def)
  qed
qed





section \<open>Properties of the edit distributor\<close>

lemma length_append_last [simp]: "length (append_last sequence moved) = length sequence"
  by (simp add: append_last_def)

lemma append_last_Nil [simp]: "(append_last sequence moved = []) = (sequence = [])"
  by (simp add: append_last_def)

lemma length_move_left:
  "move_left cond sequence last1 out = (sequence1, last1a, rest)
   \<Longrightarrow> length sequence1 = length sequence"
  by (auto simp: move_left_def split: prod.splits)

lemma length_redistribute_ws:
  "redistribute_ws output_line sequence last1 j output = (sequence1, last1a, j1, output1)
   \<Longrightarrow> length sequence1 = length sequence"
  by (auto simp: redistribute_ws_def split: if_splits prod.splits dest!: length_move_left)

lemma length_redistribute_nonws:
  "redistribute_nonws input_line i_max i sequence last1 j output = (sequence1, last1a, j1, output1)
   \<Longrightarrow> length sequence1 = length sequence"
  by (auto simp: redistribute_nonws_def split: if_splits prod.splits dest: length_move_left)

lemma length_redistribute:
  "redistribute input_line output_line last0 i sequence last1 j = (sequence1, last1a, j1, output1)
   \<Longrightarrow> length sequence1 = length sequence"
  by (auto simp: redistribute_def split: if_splits
      dest: length_redistribute_ws length_redistribute_nonws)

lemma update_step_first:
  "realignment i = Some j
   \<Longrightarrow> update_step input_line output_line output_prob realignment textequivs words textlines
         i None sequence = Inr (Some (i, j), sequence)"
  by (simp add: update_step_def)

lemma update_step_commit:
  assumes "map_of textequivs last0 = Some (Some textequiv)"
    and "map_of words last0 = Some word" "map_of textlines last0 = Some textline"
    and "redistribute input_line output_line last0 i sequence last1
           (case realignment i of Some j \<Rightarrow> j | None \<Rightarrow> last1) = (sequence1, last1a, j1, output)"
  shows "update_step input_line output_line output_prob realignment textequivs words textlines
           i (Some (last0, last1)) sequence =
         (if Unicode textequiv \<noteq> slice input_line last0 i then Inl (SourceMismatch, sequence1)
          else Inr (Some (i, j1),
                 sequence1 @ [(textequiv\<lparr>Unicode := output,
                     conf := Some (mean (if slice output_prob last1a j1 = [] then [1]
                                         else slice output_prob last1a j1))\<rparr>, word, textline)]))"
  using assms by (cases "realignment i") (simp_all add: update_step_def)


lemma update_loop_error:
  assumes "update_loop input_line output_line output_prob realignment textequivs words textlines
             keys (Some (last0, last1)) sequence = Inl (e, s)"
    and "\<forall>k \<in> set (butlast (last0 # keys)). committable textequivs words textlines k"
  shows "e = SourceMismatch \<and> (\<exists>n < length keys.
           seg_mismatch input_line textequivs ((last0 # keys) ! n) (keys ! n)
           \<and> (\<forall>m < n. \<not> seg_mismatch input_line textequivs ((last0 # keys) ! m) (keys ! m))
           \<and> length s = length sequence + n)"
  using assms
proof (induction keys arbitrary: last0 last1 sequence)
  case Nil
  then show ?case by simp
next
  case (Cons k keys)
  from Cons.prems(2) have "committable textequivs words textlines last0" by simp
  then obtain t w l where look: "map_of textequivs last0 = Some (Some t)"
    "map_of words last0 = Some w" "map_of textlines last0 = Some l"
    by (auto simp: committable_def)
  obtain s1 a j1 out where red: "redistribute input_line output_line last0 k sequence last1
       (case realignment k of Some j \<Rightarrow> j | None \<Rightarrow> last1) = (s1, a, j1, out)"
    by (metis prod_cases4)
  note step = update_step_commit [where realignment = realignment and i = k
      and output_prob = output_prob, OF look red]
  note len = length_redistribute [OF red]
  show ?case
  proof (cases "Unicode t \<noteq> slice input_line last0 k")
    case True
    with step Cons.prems(1) have "e = SourceMismatch" "s = s1" by simp_all
    moreover from True look have "seg_mismatch input_line textequivs last0 k"
      by (simp add: seg_mismatch_def)
    ultimately show ?thesis using len by auto
  next
    case False
    with look have nomm: "\<not> seg_mismatch input_line textequivs last0 k"
      by (simp add: seg_mismatch_def)
    from False step Cons.prems(1) obtain x where
      rec: "update_loop input_line output_line output_prob realignment textequivs words
              textlines keys (Some (k, j1)) (s1 @ [x]) = Inl (e, s)"
      by simp
    from Cons.prems(2) have
      "\<forall>k' \<in> set (butlast (k # keys)). committable textequivs words textlines k'"
      by (simp split: if_splits)
    from Cons.IH [OF rec this] obtain n where n: "e = SourceMismatch" "n < length keys"
      "seg_mismatch input_line textequivs ((k # keys) ! n) (keys ! n)"
      "\<forall>m < n. \<not> seg_mismatch input_line textequivs ((k # keys) ! m) (keys ! m)"
      "length s = length (s1 @ [x]) + n"
      by blast
    have "\<forall>m < Suc n. \<not> seg_mismatch input_line textequivs ((last0 # k # keys) ! m)
        ((k # keys) ! m)"
      using n(4) nomm by (auto simp: less_Suc_eq_0_disj)
    with n len have "Suc n < length (k # keys)
        \<and> seg_mismatch input_line textequivs ((last0 # k # keys) ! Suc n) ((k # keys) ! Suc n)
        \<and> (\<forall>m < Suc n. \<not> seg_mismatch input_line textequivs ((last0 # k # keys) ! m)
              ((k # keys) ! m))
        \<and> length s = length sequence + Suc n"
      by simp
    with n(1) show ?thesis by blast
  qed
qed

lemma update_loop_result:
  assumes "update_loop input_line output_line output_prob realignment textequivs words textlines
             keys (Some (last0, last1)) sequence = Inr (lp, s)"
    and "\<forall>k \<in> set (butlast (last0 # keys)). committable textequivs words textlines k"
  shows "(\<forall>n < length keys.
            \<not> seg_mismatch input_line textequivs ((last0 # keys) ! n) (keys ! n))
         \<and> length s = length sequence + length keys
         \<and> (\<exists>j. lp = Some (last (last0 # keys), j))"
  using assms
proof (induction keys arbitrary: last0 last1 sequence)
  case Nil
  then show ?case by auto
next
  case (Cons k keys)
  from Cons.prems(2) have "committable textequivs words textlines last0" by simp
  then obtain t w l where look: "map_of textequivs last0 = Some (Some t)"
    "map_of words last0 = Some w" "map_of textlines last0 = Some l"
    by (auto simp: committable_def)
  obtain s1 a j1 out where red: "redistribute input_line output_line last0 k sequence last1
       (case realignment k of Some j \<Rightarrow> j | None \<Rightarrow> last1) = (s1, a, j1, out)"
    by (metis prod_cases4)
  note step = update_step_commit [where realignment = realignment and i = k
      and output_prob = output_prob, OF look red]
  note len = length_redistribute [OF red]
  from step Cons.prems(1) have eq: "Unicode t = slice input_line last0 k"
    by (auto split: if_splits)
  with look have nomm: "\<not> seg_mismatch input_line textequivs last0 k"
    by (simp add: seg_mismatch_def)
  from eq step Cons.prems(1) obtain x where
    rec: "update_loop input_line output_line output_prob realignment textequivs words
            textlines keys (Some (k, j1)) (s1 @ [x]) = Inr (lp, s)"
    by simp
  from Cons.prems(2) have
    "\<forall>k' \<in> set (butlast (k # keys)). committable textequivs words textlines k'"
    by (simp split: if_splits)
  from Cons.IH [OF rec this] have ih:
    "\<forall>n < length keys. \<not> seg_mismatch input_line textequivs ((k # keys) ! n) (keys ! n)"
    "length s = length (s1 @ [x]) + length keys"
    "\<exists>j. lp = Some (last (k # keys), j)"
    by blast+
  have "\<forall>n < length (k # keys).
      \<not> seg_mismatch input_line textequivs ((last0 # k # keys) ! n) ((k # keys) ! n)"
    using ih(1) nomm by (auto simp: less_Suc_eq_0_disj)
  with ih(2,3) len show ?case by simp
qed


lemma map_fst_some [simp]: "map fst (map (\<lambda>e. (fst e, Some (snd e))) al) = map fst al"
  by (induction al) auto

lemma map_of_some_None:
  "(map_of (map (\<lambda>e. (fst e, Some (snd e))) al) k = None) = (k \<notin> set (map fst al))"
  by (induction al) auto

lemma keys_setdefault:
  "map fst (setdefault (length input_line) None (map (\<lambda>e. (fst e, Some (snd e))) textequivs))
   = boundaries input_line textequivs"
  by (simp add: setdefault_def boundaries_def map_of_some_None)

lemma map_of_some_nth:
  "distinct (map fst al) \<Longrightarrow> n < length al
   \<Longrightarrow> map_of (map (\<lambda>e. (fst e, Some (snd e))) al) (fst (al ! n)) = Some (Some (snd (al ! n)))"
proof (induction al arbitrary: n)
  case Nil
  then show ?case by simp
next
  case (Cons a al)
  show ?case
  proof (cases n)
    case 0
    then show ?thesis by (cases a) simp
  next
    case (Suc m)
    with Cons.prems have m: "m < length al" "distinct (map fst al)" by simp_all
    from m(1) have "al ! m \<in> set al" by simp
    then have "fst (al ! m) \<in> fst ` set al" by (rule imageI)
    moreover from Cons.prems(1) have "fst a \<notin> fst ` set al" by simp
    ultimately have "fst (al ! m) \<noteq> fst a" by metis
    with Cons.IH [OF m(2,1)] Suc show ?thesis by (cases a) simp
  qed
qed

lemma map_of_setdefault_nth:
  assumes "distinct (map fst al)" "n < length al"
  shows "map_of (setdefault k0 None (map (\<lambda>e. (fst e, Some (snd e))) al)) (fst (al ! n))
     = Some (Some (snd (al ! n)))"
  using map_of_some_nth [OF assms] by (simp add: setdefault_def)

lemma boundaries_nth:
  "n < length textequivs \<Longrightarrow> boundaries input_line textequivs ! n = fst (textequivs ! n)"
  by (simp add: boundaries_def nth_append)

lemma boundaries_length:
  "Suc n < length (boundaries input_line textequivs) \<Longrightarrow> n < length textequivs"
  by (simp add: boundaries_def split: if_splits)

lemma boundaries_butlast:
  "set (butlast (boundaries input_line textequivs)) \<subseteq> set (map fst textequivs)"
  by (auto simp: boundaries_def butlast_append dest: in_set_butlastD)

lemma boundaries_nonempty: "boundaries input_line textequivs \<noteq> []"
  by (simp add: boundaries_def)

lemma seg_mismatch_at:
  assumes "distinct (map fst textequivs)" "Suc n < length (boundaries input_line textequivs)"
  shows "seg_mismatch input_line
           (setdefault (length input_line) None (map (\<lambda>e. (fst e, Some (snd e))) textequivs))
           (boundaries input_line textequivs ! n) (boundaries input_line textequivs ! Suc n)
         = mismatch_at input_line textequivs n"
proof -
  from boundaries_length [OF assms(2)] have n: "n < length textequivs" .
  from map_of_setdefault_nth [OF assms(1) n, of "length input_line"] assms(2)
  show ?thesis
    by (simp add: seg_mismatch_def mismatch_at_def boundaries_nth [OF n])
qed

lemma well_keyed_committable:
  assumes "well_keyed input_line realignment textequivs words textlines"
    and "k \<in> set (map fst textequivs)"
  shows "committable (setdefault (length input_line) None
            (map (\<lambda>e. (fst e, Some (snd e))) textequivs)) words textlines k"
proof -
  from assms(2) obtain n where n: "n < length textequivs" "k = fst (textequivs ! n)"
    by (auto simp: in_set_conv_nth)
  from assms(1) have d: "distinct (map fst textequivs)" by (simp add: well_keyed_def)
  from assms have "map_of words k \<noteq> None \<and> map_of textlines k \<noteq> None"
    by (auto simp: well_keyed_def list_all_iff)
  with map_of_setdefault_nth [OF d n(1), of "length input_line"] n(2) show ?thesis
    by (simp add: committable_def)
qed


lemma well_keyed_butlast:
  assumes wk: "well_keyed input_line realignment textequivs words textlines"
  shows "\<forall>k \<in> set (butlast (boundaries input_line textequivs)). committable
           (setdefault (length input_line) None (map (\<lambda>e. (fst e, Some (snd e))) textequivs))
           words textlines k"
  using boundaries_butlast [of input_line textequivs] well_keyed_committable [OF wk]
  by blast

lemma update_sequence_unfold:
  assumes wk: "well_keyed input_line realignment textequivs words textlines"
    and ks: "boundaries input_line textequivs = k0 # ks"
  shows "\<exists>j0. realignment k0 = Some j0 \<and>
         update_sequence input_line output_line output_prob score realignment textequivs words
           textlines =
         (case update_loop input_line output_line output_prob realignment
                 (setdefault (length input_line) None
                    (map (\<lambda>e. (fst e, Some (snd e))) textequivs))
                 words textlines ks (Some (k0, j0)) [] of
            Inl e \<Rightarrow> Inl e
          | Inr (lp, sequence) \<Rightarrow>
              (if lp \<noteq> Some (length input_line, length output_line)
               then Inl (PathNotAtTop, sequence)
               else if list_ex (\<lambda>e. has_token (Unicode (fst e))
                                      \<and> index (fst e) = Some (- 1)) sequence
               then Inl (OutputLost, sequence)
               else Inr sequence))"
proof -
  from wk ks obtain j0 where j0: "realignment k0 = Some j0"
    by (auto simp: well_keyed_def)
  from wk have ex: "list_ex (\<lambda>e. snd e \<noteq> None) textlines"
    by (simp add: well_keyed_def)
  have first: "update_step input_line output_line output_prob realignment
      (setdefault (length input_line) None (map (\<lambda>e. (fst e, Some (snd e))) textequivs))
      words textlines k0 None [] = Inr (Some (k0, j0), [])"
    using j0 by (rule update_step_first)
  have "update_sequence input_line output_line output_prob score realignment textequivs words
           textlines =
         (case update_loop input_line output_line output_prob realignment
                 (setdefault (length input_line) None
                    (map (\<lambda>e. (fst e, Some (snd e))) textequivs))
                 words textlines ks (Some (k0, j0)) [] of
            Inl e \<Rightarrow> Inl e
          | Inr (lp, sequence) \<Rightarrow>
              (if lp \<noteq> Some (length input_line, length output_line)
               then Inl (PathNotAtTop, sequence)
               else if list_ex (\<lambda>e. has_token (Unicode (fst e))
                                      \<and> index (fst e) = Some (- 1)) sequence
               then Inl (OutputLost, sequence)
               else Inr sequence))"
    using ex by (simp add: update_sequence_def Let_def keys_setdefault ks first)
  with j0 show ?thesis by blast
qed

text \<open>
  Claim C6, as amended.  With dictionaries that fit together, \<open>_update_sequence\<close>
  raises the mismatch error exactly when, for some pair of consecutive boundaries, the
  content of the text result is not the piece of the input line between them.  The
  error is raised at the first such pair: the sequence then holds the elements
  before it, so nothing after a mismatching element is committed.  The only other
  errors are the two final assertions.  When the content matches, the step commits
  the element with the redistributed output segment as content and the mean of the
  probabilities of that segment as confidence.
\<close>

theorem update_sequence_mismatch:
  assumes wk: "well_keyed input_line realignment textequivs words textlines"
  shows "((\<exists>s. update_sequence input_line output_line output_prob score realignment textequivs
               words textlines = Inl (SourceMismatch, s))
          \<longleftrightarrow> (\<exists>n. mismatch_at input_line textequivs n))
     \<and> (\<forall>s. update_sequence input_line output_line output_prob score realignment textequivs
               words textlines = Inl (SourceMismatch, s)
           \<longrightarrow> mismatch_at input_line textequivs (length s)
               \<and> (\<forall>m < length s. \<not> mismatch_at input_line textequivs m))
     \<and> (\<forall>e s. update_sequence input_line output_line output_prob score realignment textequivs
               words textlines = Inl (e, s)
           \<longrightarrow> e = SourceMismatch \<or> e = PathNotAtTop \<or> e = OutputLost)
     \<and> (\<forall>dict last0 last1 i sequence t w l sequence1 last1a j1 output.
           map_of dict last0 = Some (Some t) \<longrightarrow> map_of words last0 = Some w
           \<longrightarrow> map_of textlines last0 = Some l \<longrightarrow> Unicode t = slice input_line last0 i
           \<longrightarrow> redistribute input_line output_line last0 i sequence last1
                 (case realignment i of Some j \<Rightarrow> j | None \<Rightarrow> last1)
               = (sequence1, last1a, j1, output)
           \<longrightarrow> update_step input_line output_line output_prob realignment dict words textlines
                 i (Some (last0, last1)) sequence
               = Inr (Some (i, j1),
                   sequence1 @ [(t\<lparr>Unicode := output,
                       conf := Some (mean (if slice output_prob last1a j1 = [] then [1]
                                           else slice output_prob last1a j1))\<rparr>, w, l)]))"
proof -
  define tes where "tes = setdefault (length input_line) None
     (map (\<lambda>e. (fst e, Some (snd e))) textequivs)"
  from wk have d: "distinct (map fst textequivs)" by (simp add: well_keyed_def)
  obtain k0 ks where ks: "boundaries input_line textequivs = k0 # ks"
    using boundaries_nonempty [of input_line textequivs]
    by (cases "boundaries input_line textequivs") auto
  from well_keyed_butlast [OF wk]
  have c: "\<forall>k \<in> set (butlast (k0 # ks)). committable tes words textlines k"
    unfolding ks tes_def .
  from update_sequence_unfold [OF wk ks, of output_line output_prob score]
  obtain j0 where unf: "update_sequence input_line output_line output_prob score realignment
           textequivs words textlines =
         (case update_loop input_line output_line output_prob realignment tes
                 words textlines ks (Some (k0, j0)) [] of
            Inl e \<Rightarrow> Inl e
          | Inr (lp, sequence) \<Rightarrow>
              (if lp \<noteq> Some (length input_line, length output_line)
               then Inl (PathNotAtTop, sequence)
               else if list_ex (\<lambda>e. has_token (Unicode (fst e))
                                      \<and> index (fst e) = Some (- 1)) sequence
               then Inl (OutputLost, sequence)
               else Inr sequence))"
    unfolding tes_def by blast
  have mm: "seg_mismatch input_line tes ((k0 # ks) ! n) (ks ! n)
      = mismatch_at input_line textequivs n" if "n < length ks" for n
    using seg_mismatch_at [OF d, of n input_line] that unfolding ks tes_def by simp
  have no: "\<not> mismatch_at input_line textequivs n" if "\<not> n < length ks" for n
    using that by (simp add: mismatch_at_def ks)
  let ?loop = "update_loop input_line output_line output_prob realignment tes
                 words textlines ks (Some (k0, j0)) []"
  have err: "e = SourceMismatch \<and> mismatch_at input_line textequivs (length s)
       \<and> (\<forall>m < length s. \<not> mismatch_at input_line textequivs m)"
    if "?loop = Inl (e, s)" for e s
  proof -
    from update_loop_error [OF that c] obtain n where n: "e = SourceMismatch" "n < length ks"
      "seg_mismatch input_line tes ((k0 # ks) ! n) (ks ! n)"
      "\<forall>m < n. \<not> seg_mismatch input_line tes ((k0 # ks) ! m) (ks ! m)" "length s = n"
      by auto
    from n(4) n(2) have "\<forall>m < n. \<not> mismatch_at input_line textequivs m"
      using mm by auto
    with n mm [OF n(2)] show ?thesis by simp
  qed
  have res: "\<forall>n. \<not> mismatch_at input_line textequivs n" if "?loop = Inr (lp, s)" for lp s
  proof
    fix n
    from update_loop_result [OF that c] have
      "\<forall>n < length ks. \<not> seg_mismatch input_line tes ((k0 # ks) ! n) (ks ! n)" by simp
    with mm no show "\<not> mismatch_at input_line textequivs n"
      by (cases "n < length ks") auto
  qed
  have a: "(\<exists>s. update_sequence input_line output_line output_prob score realignment textequivs
               words textlines = Inl (SourceMismatch, s))
          \<longleftrightarrow> (\<exists>n. mismatch_at input_line textequivs n)"
  proof (cases ?loop)
    case (Inl p)
    obtain e s where p: "p = (e, s)" by (cases p)
    from err [OF Inl [unfolded p]] Inl p unf show ?thesis by auto
  next
    case (Inr p)
    obtain lp s where p: "p = (lp, s)" by (cases p)
    from res [OF Inr [unfolded p]] Inr p unf show ?thesis by auto
  qed
  have b: "mismatch_at input_line textequivs (length s)
       \<and> (\<forall>m < length s. \<not> mismatch_at input_line textequivs m)"
    if "update_sequence input_line output_line output_prob score realignment textequivs
               words textlines = Inl (SourceMismatch, s)" for s
  proof (cases ?loop)
    case (Inl p)
    with that unf have "?loop = Inl (SourceMismatch, s)" by simp
    from err [OF this] show ?thesis by simp
  next
    case (Inr p)
    with that unf show ?thesis by (auto split: prod.splits if_splits)
  qed
  have c': "e = SourceMismatch \<or> e = PathNotAtTop \<or> e = OutputLost"
    if "update_sequence input_line output_line output_prob score realignment textequivs
               words textlines = Inl (e, s)" for e s
  proof (cases ?loop)
    case (Inl p)
    with that unf have "?loop = Inl (e, s)" by simp
    from err [OF this] show ?thesis by simp
  next
    case (Inr p)
    with that unf show ?thesis by (auto split: prod.splits if_splits)
  qed
  have step: "update_step input_line output_line output_prob realignment dict words textlines
                 i (Some (last0, last1)) sequence
               = Inr (Some (i, j1),
                   sequence1 @ [(t\<lparr>Unicode := out,
                       conf := Some (mean (if slice output_prob last1a j1 = [] then [1]
                                           else slice output_prob last1a j1))\<rparr>, w, l)])"
    if "map_of dict last0 = Some (Some t)" "map_of words last0 = Some w"
      "map_of textlines last0 = Some l" "Unicode t = slice input_line last0 i"
      "redistribute input_line output_line last0 i sequence last1
                 (case realignment i of Some j \<Rightarrow> j | None \<Rightarrow> last1)
               = (sequence1, last1a, j1, out)"
    for dict last0 last1 i sequence t w l sequence1 last1a j1 out
    using update_step_commit [where realignment = realignment and i = i
        and output_prob = output_prob, OF that(1,2,3,5)] that(4)
    by simp
  have b': "\<forall>s. update_sequence input_line output_line output_prob score realignment textequivs
               words textlines = Inl (SourceMismatch, s)
           \<longrightarrow> mismatch_at input_line textequivs (length s)
               \<and> (\<forall>m < length s. \<not> mismatch_at input_line textequivs m)"
    using b by blast
  have c'': "\<forall>e s. update_sequence input_line output_line output_prob score realignment textequivs
               words textlines = Inl (e, s)
           \<longrightarrow> e = SourceMismatch \<or> e = PathNotAtTop \<or> e = OutputLost"
    using c' by blast
  have step': "\<forall>dict last0 last1 i sequence t w l sequence1 last1a j1 output.
           map_of dict last0 = Some (Some t) \<longrightarrow> map_of words last0 = Some w
           \<longrightarrow> map_of textlines last0 = Some l \<longrightarrow> Unicode t = slice input_line last0 i
           \<longrightarrow> redistribute input_line output_line last0 i sequence last1
                 (case realignment i of Some j \<Rightarrow> j | None \<Rightarrow> last1)
               = (sequence1, last1a, j1, output)
           \<longrightarrow> update_step input_line output_line output_prob realignment dict words textlines
                 i (Some (last0, last1)) sequence
               = Inr (Some (i, j1),
                   sequence1 @ [(t\<lparr>Unicode := output,
                       conf := Some (mean (if slice output_prob last1a j1 = [] then [1]
                                           else slice output_prob last1a j1))\<rparr>, w, l)])"
    by (intro allI impI) (rule step; assumption)
  show ?thesis
    by (rule conjI [OF a conjI [OF b' conjI [OF c'' step']]])
qed

theorem update_sequence_mismatch_witness:
  "well_keyed [97, 108, 111, 116, 10] ex_path ex_mismatching ex_words ex_words
   \<and> mismatch_at [97, 108, 111, 116, 10] ex_mismatching 0
   \<and> (\<exists>s. update_sequence [97, 108, 111, 116, 10] [97, 32, 108, 111, 116, 10]
          [1, 1, 1, 1, 1, 1] 0 ex_path ex_mismatching ex_words ex_words
        = Inl (SourceMismatch, s))"
proof -
  have wk: "well_keyed [97, 108, 111, 116, 10] ex_path ex_mismatching ex_words ex_words"
    by code_simp
  have mm: "mismatch_at [97, 108, 111, 116, 10] ex_mismatching 0"
    by code_simp
  from update_sequence_mismatch [OF wk, of "[97, 32, 108, 111, 116, 10]"
      "[1, 1, 1, 1, 1, 1]" 0] mm
  have "\<exists>s. update_sequence [97, 108, 111, 116, 10] [97, 32, 108, 111, 116, 10]
          [1, 1, 1, 1, 1, 1] 0 ex_path ex_mismatching ex_words ex_words
        = Inl (SourceMismatch, s)"
    by blast
  with wk mm show ?thesis by simp
qed

lemma ex_textequivs_match: "\<not> (\<exists>n. mismatch_at [97, 108, 111, 116, 10] ex_textequivs n)"
proof
  assume "\<exists>n. mismatch_at [97, 108, 111, 116, 10] ex_textequivs n"
  then obtain n where n: "mismatch_at [97, 108, 111, 116, 10] ex_textequivs n" ..
  then have "n < 2"
    by (simp add: mismatch_at_def boundaries_def ex_textequivs_def)
  then consider "n = 0" | "n = 1" by (auto dest: less_2_cases)
  then show False
  proof cases
    case 1
    have "\<not> mismatch_at [97, 108, 111, 116, 10] ex_textequivs 0" by code_simp
    with n 1 show False by simp
  next
    case 2
    have "\<not> mismatch_at [97, 108, 111, 116, 10] ex_textequivs 1" by code_simp
    with n 2 show False by simp
  qed
qed

text \<open>
  The claim as stated fails: for the line \<open>alot\<close> with the output \<open>alot\<close>, newline,
  \<open>x\<close>, no element mismatches, yet the final assertion on the path raises an error.
\<close>

theorem update_sequence_error_without_mismatch:
  "well_keyed [97, 108, 111, 116, 10] ex_path ex_textequivs ex_words ex_words
   \<and> \<not> (\<exists>n. mismatch_at [97, 108, 111, 116, 10] ex_textequivs n)
   \<and> update_sequence [97, 108, 111, 116, 10] [97, 108, 111, 116, 10, 120]
        [1, 1, 1, 1, 1, 1] 0 ex_path ex_textequivs ex_words ex_words
      = Inl (PathNotAtTop,
          [(\<lparr>Unicode = [97, 108, 111, 116], conf = Some 1, index = None\<rparr>, Some 1, Some 1),
           (\<lparr>Unicode = [], conf = Some 1, index = Some (- 1)\<rparr>, Some 1, Some 1)])"
proof -
  have "well_keyed [97, 108, 111, 116, 10] ex_path ex_textequivs ex_words ex_words"
    by code_simp
  moreover have "update_sequence [97, 108, 111, 116, 10] [97, 108, 111, 116, 10, 120]
        [1, 1, 1, 1, 1, 1] 0 ex_path ex_textequivs ex_words ex_words
      = Inl (PathNotAtTop,
          [(\<lparr>Unicode = [97, 108, 111, 116], conf = Some 1, index = None\<rparr>, Some 1, Some 1),
           (\<lparr>Unicode = [], conf = Some 1, index = Some (- 1)\<rparr>, Some 1, Some 1)])"
    by code_simp
  ultimately show ?thesis using ex_textequivs_match by simp
qed

lemma shift_left_append: "shift_left cond s = (moved, rest) \<Longrightarrow> moved @ rest = s"
  by (induction s arbitrary: moved rest) (auto split: if_splits prod.splits)

lemma shift_left_stop: "shift_left cond s = (moved, rest) \<Longrightarrow> rest \<noteq> [] \<Longrightarrow> \<not> cond rest"
  by (induction s arbitrary: moved rest) (auto split: if_splits prod.splits)

lemma strip_right_stop: "strip_right out j = (output2, j2) \<Longrightarrow> \<not> ends_ws output2"
proof (induction out j rule: strip_right.induct)
  case (1 out j)
  then show ?case
    by (cases "ends_ws out") (simp_all add: strip_right.simps [of out j])
qed

lemma strip_right_prefix:
  "strip_right out j = (output2, j2)
   \<Longrightarrow> \<exists>k \<le> length out. output2 = take (length out - k) out \<and> j2 = j - k"
proof (induction out j rule: strip_right.induct)
  case (1 out j)
  show ?case
  proof (cases "ends_ws out")
    case False
    with "1.prems" have "output2 = out" "j2 = j"
      by (simp_all add: strip_right.simps [of out j])
    then show ?thesis by (intro exI [of _ 0]) simp
  next
    case True
    with "1.prems" have "strip_right (butlast out) (j - 1) = (output2, j2)"
      by (simp add: strip_right.simps [of out j])
    from "1.IH" [OF True this] obtain k where k: "k \<le> length (butlast out)"
      "output2 = take (length (butlast out) - k) (butlast out)" "j2 = j - 1 - k"
      by blast
    from True have ne: "out \<noteq> []" by (simp add: ends_ws_def)
    have "length (butlast out) = length out - 1" by (rule length_butlast)
    with k(1) have "k \<le> length out - 1" by (simp only:)
    moreover from ne have "1 \<le> length out" by (cases out) simp_all
    ultimately have "Suc k \<le> length out" by arith
    moreover from k(2) ne have "output2 = take (length out - Suc k) out"
      by (simp add: butlast_conv_take)
    moreover from k(3) have "j2 = j - Suc k" by simp
    ultimately show ?thesis by blast
  qed
qed

lemma redistribute_nonws_start:
  assumes "redistribute_nonws input_line i_max i sequence last1 j output
             = (sequence1, last1a, j1, output1)"
    and "sequence \<noteq> []" "index (fst (last sequence)) = Some (- 1)"
  shows "\<not> (output1 \<noteq> [] \<and> hd output1 = SP)"
proof -
  define mid where "mid = (if output \<noteq> [] \<and> hd output = SP
     then snd (shift_left (\<lambda>s. s \<noteq> [] \<and> hd s = SP) output) else output)"
  note defs = redistribute_nonws_def move_left_def
  have mid: "\<not> (mid \<noteq> [] \<and> hd mid = SP)"
  proof (cases "output \<noteq> [] \<and> hd output = SP")
    case True
    obtain m r where mr: "shift_left (\<lambda>s. s \<noteq> [] \<and> hd s = SP) output = (m, r)"
      by (cases "shift_left (\<lambda>s. s \<noteq> [] \<and> hd s = SP) output")
    from shift_left_stop [OF mr] True mr show ?thesis
      by (auto simp: mid_def)
  next
    case False
    then show ?thesis by (auto simp: mid_def)
  qed
  have "\<exists>k. output1 = take k mid"
  proof (cases "ends_ws mid \<and> i < i_max \<and> (input_line ! i = SP \<or> input_line ! i = NL)")
    case True
    obtain o2 j2 where s: "strip_right mid j = (o2, j2)" by (cases "strip_right mid j")
    from strip_right_prefix [OF s] obtain k where "o2 = take (length mid - k) mid" by blast
    moreover from assms True s have "output1 = o2"
      by (auto simp: defs mid_def split: if_splits prod.splits)
    ultimately show ?thesis by blast
  next
    case False
    with assms have "output1 = mid"
      by (auto simp: defs mid_def split: if_splits prod.splits)
    then show ?thesis by (intro exI [of _ "length mid"]) simp
  qed
  then obtain k where "output1 = take k mid" ..
  with mid show ?thesis by (cases mid; cases k) auto
qed

lemma redistribute_nonws_end:
  assumes "redistribute_nonws input_line i_max i sequence last1 j output
             = (sequence1, last1a, j1, output1)"
    and "i < i_max" "input_line ! i = SP \<or> input_line ! i = NL"
  shows "\<not> ends_ws output1"
  using assms
  by (auto simp: redistribute_nonws_def move_left_def split: if_splits prod.splits
      dest: strip_right_stop)

lemma update_step_Inr:
  assumes "update_step input_line output_line output_prob realignment textequivs words textlines
             i (Some (last0, last1)) sequence = Inr (lp, sequence')"
  shows "\<exists>t w l sequence1 last1a j1 out.
      redistribute input_line output_line last0 i sequence last1
        (case realignment i of Some j \<Rightarrow> j | None \<Rightarrow> last1) = (sequence1, last1a, j1, out)
    \<and> map_of textequivs last0 = Some (Some t) \<and> Unicode t = slice input_line last0 i
    \<and> map_of words last0 = Some w \<and> map_of textlines last0 = Some l
    \<and> lp = Some (i, j1)
    \<and> sequence' = sequence1 @ [(t\<lparr>Unicode := out,
           conf := Some (mean (if slice output_prob last1a j1 = [] then [1]
                               else slice output_prob last1a j1))\<rparr>, w, l)]"
proof -
  obtain sequence1 last1a j1 out where red:
    "redistribute input_line output_line last0 i sequence last1
        (case realignment i of Some j \<Rightarrow> j | None \<Rightarrow> last1) = (sequence1, last1a, j1, out)"
    by (metis prod_cases4)
  from assms red obtain t where t: "map_of textequivs last0 = Some (Some t)"
    by (cases "realignment i"; cases "map_of textequivs last0")
       (auto simp: update_step_def split: option.splits)
  from assms red t obtain w where w: "map_of words last0 = Some w"
    by (cases "realignment i"; cases "map_of words last0")
       (auto simp: update_step_def split: option.splits if_splits)
  from assms red t w obtain l where l: "map_of textlines last0 = Some l"
    by (cases "realignment i"; cases "map_of textlines last0")
       (auto simp: update_step_def split: option.splits if_splits)
  note step = update_step_commit [where realignment = realignment and i = i
      and output_prob = output_prob, OF t w l red]
  from step assms have eq: "Unicode t = slice input_line last0 i"
    by (auto split: if_splits)
  with step assms have "lp = Some (i, j1)"
    "sequence' = sequence1 @ [(t\<lparr>Unicode := out,
           conf := Some (mean (if slice output_prob last1a j1 = [] then [1]
                               else slice output_prob last1a j1))\<rparr>, w, l)]"
    by simp_all
  with red t w l eq show ?thesis by blast
qed


lemma update_step_error:
  "update_step input_line output_line output_prob realignment textequivs words textlines
     i lastp sequence = Inl (e, s) \<Longrightarrow> e \<noteq> OutputLost \<and> e \<noteq> PathNotAtTop"
  by (auto simp: update_step_def split: option.splits sum.splits prod.splits if_splits)

lemma update_loop_no_final_error:
  "update_loop input_line output_line output_prob realignment textequivs words textlines
     keys lastp sequence = Inl (e, s) \<Longrightarrow> e \<noteq> OutputLost \<and> e \<noteq> PathNotAtTop"
proof (induction keys arbitrary: lastp sequence)
  case Nil
  then show ?case by simp
next
  case (Cons k keys)
  show ?case
  proof (cases "update_step input_line output_line output_prob realignment textequivs words
      textlines k lastp sequence")
    case (Inl p)
    with Cons.prems have "update_step input_line output_line output_prob realignment textequivs
        words textlines k lastp sequence = Inl (e, s)"
      by simp
    then show ?thesis by (rule update_step_error)
  next
    case (Inr p)
    obtain lp' s' where p: "p = (lp', s')" by (cases p)
    from Cons.prems Inr p have "update_loop input_line output_line output_prob realignment
        textequivs words textlines keys lp' s' = Inl (e, s)"
      by simp
    then show ?thesis by (rule Cons.IH)
  qed
qed

text \<open>
  When \<open>_update_sequence\<close> returns, every emitted element whose final content holds a
  character that is not whitespace is a persisted one (\<open>index\<close> is not \<open>-1\<close>); the
  error of the last assertion is raised only when some element violates this.
\<close>

lemma update_sequence_tokens_persisted:
  "(\<forall>seq. update_sequence input_line output_line output_prob score realignment textequivs words
            textlines = Inr seq
       \<longrightarrow> (\<forall>e \<in> set seq. has_token (Unicode (fst e)) \<longrightarrow> index (fst e) \<noteq> Some (- 1)))
   \<and> (\<forall>seq. update_sequence input_line output_line output_prob score realignment textequivs words
            textlines = Inl (OutputLost, seq)
       \<longrightarrow> (\<exists>e \<in> set seq. has_token (Unicode (fst e)) \<and> index (fst e) = Some (- 1)))"
proof (intro conjI)
  show "\<forall>seq. update_sequence input_line output_line output_prob score realignment textequivs
            words textlines = Inr seq
       \<longrightarrow> (\<forall>e \<in> set seq. has_token (Unicode (fst e)) \<longrightarrow> index (fst e) \<noteq> Some (- 1))"
    by (auto simp: update_sequence_def Let_def list_ex_iff
        split: if_splits sum.splits prod.splits)
next
  show "\<forall>seq. update_sequence input_line output_line output_prob score realignment textequivs
            words textlines = Inl (OutputLost, seq)
       \<longrightarrow> (\<exists>e \<in> set seq. has_token (Unicode (fst e)) \<and> index (fst e) = Some (- 1))"
    by (auto simp: update_sequence_def Let_def list_ex_iff
        split: if_splits sum.splits prod.splits dest: update_loop_no_final_error)
qed

text \<open>
  Claim C2.  After \<open>_update_sequence\<close> no persisted element should start or end with
  whitespace; the description of the module says so as well (objects that are not
  whitespace must not start or end with whitespace, space is allowed only in the
  middle).  The code does not achieve this.  For the line \<open>a\<close> corrected to \<open>a\<close> with a
  leading space, along the path that the aligner computes for a soft alignment that
  attaches the space to the word, \<open>_update_sequence\<close> returns without an error, and
  the word, a persisted element, has the content \<open>" a"\<close>: leading spaces are only
  moved away when an implicit whitespace element has been emitted before, and the
  first element of a line has none.
\<close>

theorem persisted_span_starts_with_space:
  "(case alignment2path ex_alignment_shift 2 3 0 of
      Inl e \<Rightarrow> False
    | Inr path \<Rightarrow>
        update_sequence [97, 10] [32, 97, 10] [1, 1, 1] 0 path ex_a ex_a_words ex_a_words
        = Inr [(\<lparr>Unicode = [32, 97], conf = Some 1, index = None\<rparr>, Some 1, Some 1),
               (\<lparr>Unicode = [10], conf = Some 1, index = Some (- 1)\<rparr>, Some 1, Some 1)])
   \<and> isspace 32"
  by code_simp

section \<open>The committed segments partition the output line\<close>

lemma content_length_append [simp]:
  "content_length (s1 @ s2) = content_length s1 + content_length s2"
  by (simp add: content_length_def)

lemma content_length_single [simp]: "content_length [(t, w, l)] = length (Unicode t)"
  by (simp add: content_length_def)

lemma content_length_append_last:
  "sequence \<noteq> [] \<Longrightarrow> content_length (append_last sequence moved)
     = content_length sequence + length moved"
proof -
  assume ne: "sequence \<noteq> []"
  then have split: "sequence = butlast sequence @ [last sequence]" by simp
  obtain t w l where e: "last sequence = (t, w, l)" by (cases "last sequence")
  have "content_length sequence = content_length (butlast sequence) + length (Unicode t)"
    by (subst split) (simp add: e)
  with ne e show ?thesis by (simp add: append_last_def)
qed

lemma length_slice: "b \<le> length s \<Longrightarrow> length (slice s a b) = b - a"
  by (simp add: slice_def)

lemma slice_rest:
  assumes "slice s a b = moved @ rest"
  shows "rest = slice s (a + length moved) b"
proof -
  from assms have "rest = drop (length moved) (slice s a b)" by simp
  also have "\<dots> = slice s (a + length moved) b"
    by (simp add: slice_def drop_take add.commute)
  finally show ?thesis .
qed

lemma slice_moved_le:
  assumes "slice s a b = moved @ rest" "a \<le> b"
  shows "a + length moved \<le> b"
proof -
  have "length (slice s a b) \<le> b - a" by (simp add: slice_def)
  with assms show ?thesis by simp
qed

lemma slice_take:
  "b \<le> length s \<Longrightarrow> k \<le> b - a
   \<Longrightarrow> take (length (slice s a b) - k) (slice s a b) = slice s a (b - k)"
proof -
  assume b: "b \<le> length s" and k: "k \<le> b - a"
  have eq: "b - a - k = b - k - a" by arith
  have "take (b - a - k) (slice s a b) = take (b - a - k) (drop a s)"
    by (simp add: slice_def min_absorb1)
  also have "\<dots> = slice s a (b - k)" by (simp add: slice_def add.commute)
  finally show ?thesis by (simp add: length_slice [OF b])
qed

lemma length_last_token: "length (last_token s) \<le> length s"
proof -
  have "length (takeWhile (\<lambda>c. c \<noteq> SP) (rev s)) \<le> length (rev s)"
    by (rule length_takeWhile_le)
  then show ?thesis by (simp add: last_token_def)
qed


lemma move_left_partition:
  assumes mv: "move_left cond sequence a out = (sequence1, a1, rest)"
    and out: "out = slice output_line a j" and le: "a \<le> j" and ne: "sequence \<noteq> []"
  shows "rest = slice output_line a1 j \<and> a \<le> a1 \<and> a1 \<le> j
     \<and> content_length sequence1 = content_length sequence + (a1 - a) \<and> sequence1 \<noteq> []"
proof -
  obtain moved where sh: "shift_left cond out = (moved, rest)"
    and s1: "sequence1 = append_last sequence moved" and a1: "a1 = a + length moved"
    using mv by (auto simp: move_left_def split: prod.splits)
  from shift_left_append [OF sh] out have eq: "slice output_line a j = moved @ rest" by simp
  from slice_rest [OF eq] slice_moved_le [OF eq le] content_length_append_last [OF ne, of moved]
    ne show ?thesis
    by (simp add: s1 a1)
qed

lemma redistribute_ws_partition:
  assumes red: "redistribute_ws output_line sequence last1 j (slice output_line last1 j)
      = (sequence1, last1a, j1, out)"
    and le: "last1 \<le> j" and top: "j \<le> length output_line"
  shows "content_length sequence1 = content_length sequence + (last1a - last1)
     \<and> last1 \<le> last1a \<and> last1a \<le> j1 \<and> j1 \<le> j \<and> out = slice output_line last1a j1"
proof -
  define o0 where "o0 = slice output_line last1 j"
  obtain sq1 a1 o1 where e1:
    "(if o0 \<noteq> [] \<and> \<not> starts_ws o0 \<and> sequence \<noteq> []
      then move_left (\<lambda>s. s \<noteq> [] \<and> \<not> starts_ws s) sequence last1 o0
      else (sequence, last1, o0)) = (sq1, a1, o1)"
    by (metis prod_cases3)
  have st1: "o1 = slice output_line a1 j \<and> last1 \<le> a1 \<and> a1 \<le> j
      \<and> content_length sq1 = content_length sequence + (a1 - last1)
      \<and> (sequence \<noteq> [] \<longrightarrow> sq1 \<noteq> [])"
  proof (cases "o0 \<noteq> [] \<and> \<not> starts_ws o0 \<and> sequence \<noteq> []")
    case True
    with e1 have mv: "move_left (\<lambda>s. s \<noteq> [] \<and> \<not> starts_ws s) sequence last1 o0
        = (sq1, a1, o1)" by simp
    from True have ne: "sequence \<noteq> []" by simp
    from move_left_partition [OF mv o0_def le ne] show ?thesis by simp
  next
    case False
    with e1 have "sq1 = sequence" "a1 = last1" "o1 = o0" by simp_all
    with le show ?thesis by (simp add: o0_def)
  qed
  obtain j2 o2 where e2:
    "(if o1 \<noteq> [] \<and> \<not> ends_ws o1
      then (j - length (last_token o1), slice output_line a1 (j - length (last_token o1)))
      else (j, o1)) = (j2, o2)"
    by (metis prod.exhaust)
  have "length (last_token o1) \<le> j - a1"
    using length_last_token [of o1] st1 top by (simp add: length_slice)
  with st1 e2 have st2: "o2 = slice output_line a1 j2 \<and> a1 \<le> j2 \<and> j2 \<le> j"
    by (auto split: if_splits)
  obtain sq3 a3 o3 where e3:
    "(if has_token o2 \<and> sq1 \<noteq> [] then move_left has_token sq1 a1 o2 else (sq1, a1, o2))
      = (sq3, a3, o3)"
    by (metis prod_cases3)
  have st3: "o3 = slice output_line a3 j2 \<and> a1 \<le> a3 \<and> a3 \<le> j2
      \<and> content_length sq3 = content_length sq1 + (a3 - a1)"
  proof (cases "has_token o2 \<and> sq1 \<noteq> []")
    case True
    with e3 have mv: "move_left has_token sq1 a1 o2 = (sq3, a3, o3)" by simp
    from True have ne: "sq1 \<noteq> []" by simp
    from st2 have o2: "o2 = slice output_line a1 j2" and le2: "a1 \<le> j2" by simp_all
    from move_left_partition [OF mv o2 le2 ne] show ?thesis by simp
  next
    case False
    with e3 have "sq3 = sq1" "a3 = a1" "o3 = o2" by simp_all
    with st2 show ?thesis by simp
  qed
  from red have "(sq3, a3, j2, o3) = (sequence1, last1a, j1, out)"
    unfolding redistribute_ws_def o0_def [symmetric] e1 prod.case e2 e3 .
  with st1 st2 st3 show ?thesis by auto
qed

lemma redistribute_nonws_partition:
  assumes red: "redistribute_nonws input_line i_max i sequence last1 j
      (slice output_line last1 j) = (sequence1, last1a, j1, out)"
    and le: "last1 \<le> j" and top: "j \<le> length output_line"
  shows "content_length sequence1 = content_length sequence + (last1a - last1)
     \<and> last1 \<le> last1a \<and> last1a \<le> j1 \<and> j1 \<le> j \<and> out = slice output_line last1a j1"
proof -
  define o0 where "o0 = slice output_line last1 j"
  obtain sq1 a1 o1 where e1:
    "(if o0 \<noteq> [] \<and> hd o0 = SP \<and> sequence \<noteq> [] \<and> index (fst (last sequence)) = Some (- 1)
      then move_left (\<lambda>s. s \<noteq> [] \<and> hd s = SP) sequence last1 o0
      else (sequence, last1, o0)) = (sq1, a1, o1)"
    by (metis prod_cases3)
  have st1: "o1 = slice output_line a1 j \<and> last1 \<le> a1 \<and> a1 \<le> j
      \<and> content_length sq1 = content_length sequence + (a1 - last1)"
  proof (cases "o0 \<noteq> [] \<and> hd o0 = SP \<and> sequence \<noteq> []
      \<and> index (fst (last sequence)) = Some (- 1)")
    case True
    with e1 have mv: "move_left (\<lambda>s. s \<noteq> [] \<and> hd s = SP) sequence last1 o0
        = (sq1, a1, o1)" by simp
    from True have ne: "sequence \<noteq> []" by simp
    from move_left_partition [OF mv o0_def le ne] show ?thesis by simp
  next
    case False
    with e1 have "sq1 = sequence" "a1 = last1" "o1 = o0" by simp_all
    with le show ?thesis by (simp add: o0_def)
  qed
  obtain o2 j2 where sr: "strip_right o1 j = (o2, j2)" by (cases "strip_right o1 j")
  from red have res: "(if ends_ws o1 \<and> i < i_max \<and> (input_line ! i = SP \<or> input_line ! i = NL)
      then (sq1, a1, j2, o2) else (sq1, a1, j, o1)) = (sequence1, last1a, j1, out)"
    unfolding redistribute_nonws_def o0_def [symmetric] e1 prod.case sr .
  show ?thesis
  proof (cases "ends_ws o1 \<and> i < i_max \<and> (input_line ! i = SP \<or> input_line ! i = NL)")
    case True
    from strip_right_prefix [OF sr] obtain k where k: "k \<le> length o1"
      "o2 = take (length o1 - k) o1" "j2 = j - k"
      by blast
    from st1 top have len: "length o1 = j - a1" by (simp add: length_slice)
    with k(1) have kle: "k \<le> j - a1" by simp
    from slice_take [OF top kle] k(2) st1 have "o2 = slice output_line a1 (j - k)" by simp
    with True res st1 k(3) kle show ?thesis by auto
  next
    case False
    with res st1 show ?thesis by auto
  qed
qed

lemma redistribute_partition:
  assumes "redistribute input_line output_line last0 i sequence last1 j
      = (sequence1, last1a, j1, out)"
    and "last1 \<le> j" "j \<le> length output_line"
  shows "content_length sequence1 = content_length sequence + (last1a - last1)
     \<and> last1 \<le> last1a \<and> last1a \<le> j1 \<and> j1 \<le> j \<and> out = slice output_line last1a j1"
proof (cases "slice input_line last0 i = [SP] \<or> slice input_line last0 i = [NL]")
  case True
  with assms(1) have "redistribute_ws output_line sequence last1 j (slice output_line last1 j)
      = (sequence1, last1a, j1, out)"
    by (simp add: redistribute_def)
  from redistribute_ws_partition [OF this assms(2,3)] show ?thesis .
next
  case False
  with assms(1) have "redistribute_nonws input_line (length input_line) i sequence last1 j
      (slice output_line last1 j) = (sequence1, last1a, j1, out)"
    by (simp add: redistribute_def)
  from redistribute_nonws_partition [OF this assms(2,3)] show ?thesis .
qed


lemma update_loop_partition:
  assumes "update_loop input_line output_line output_prob realignment textequivs words textlines
             keys (Some (last0, last1)) sequence = Inr (lp, s)"
    and "content_length sequence = last1" "last1 \<le> length output_line"
    and "\<forall>k \<in> set keys. \<forall>v. realignment k = Some v \<longrightarrow> last1 \<le> v \<and> v \<le> length output_line"
    and "path_sorted realignment keys"
  shows "\<exists>i j. lp = Some (i, j) \<and> content_length s = j"
  using assms
proof (induction keys arbitrary: last0 last1 sequence)
  case Nil
  then show ?case by auto
next
  case (Cons k keys)
  define j where "j = (case realignment k of Some v \<Rightarrow> v | None \<Rightarrow> last1)"
  from Cons.prems(3,4) have j: "last1 \<le> j" "j \<le> length output_line"
    by (auto simp: j_def split: option.splits)
  obtain lp' s' where step: "update_step input_line output_line output_prob realignment
      textequivs words textlines k (Some (last0, last1)) sequence = Inr (lp', s')"
    and rec: "update_loop input_line output_line output_prob realignment textequivs words
      textlines keys lp' s' = Inr (lp, s)"
    using Cons.prems(1) by (auto split: sum.splits)
  from update_step_Inr [OF step] obtain t w l sequence1 last1a j1 out where
    red: "redistribute input_line output_line last0 k sequence last1 j
        = (sequence1, last1a, j1, out)"
    and lp': "lp' = Some (k, j1)"
    and s': "s' = sequence1 @ [(t\<lparr>Unicode := out,
           conf := Some (mean (if slice output_prob last1a j1 = [] then [1]
                               else slice output_prob last1a j1))\<rparr>, w, l)]"
    unfolding j_def by blast
  from redistribute_partition [OF red j] have part:
    "content_length sequence1 = content_length sequence + (last1a - last1)"
    "last1 \<le> last1a" "last1a \<le> j1" "j1 \<le> j" "out = slice output_line last1a j1"
    by simp_all
  from part j have "length out = j1 - last1a" by (simp add: length_slice)
  with part Cons.prems(2) have len: "content_length s' = j1" by (simp add: s')
  from part j have top: "j1 \<le> length output_line" by simp
  have later: "\<forall>k' \<in> set keys. \<forall>v. realignment k' = Some v \<longrightarrow> j1 \<le> v \<and> v \<le> length output_line"
  proof (intro ballI allI impI)
    fix k' v assume k': "k' \<in> set keys" and v: "realignment k' = Some v"
    from Cons.prems(4) k' v have bound: "last1 \<le> v" "v \<le> length output_line" by auto
    have "j \<le> v"
    proof (cases "realignment k")
      case None
      with bound show ?thesis by (simp add: j_def)
    next
      case (Some vk)
      with Cons.prems(5) k' v have "vk \<le> v" by (auto simp: path_sorted_def)
      with Some show ?thesis by (simp add: j_def)
    qed
    with part bound show "j1 \<le> v \<and> v \<le> length output_line" by simp
  qed
  from Cons.prems(5) have "path_sorted realignment keys" by (simp add: path_sorted_def)
  from Cons.IH [OF rec [unfolded lp'] len top later this] show ?case .
qed


lemma update_sequence_partition:
  assumes upd: "update_sequence input_line output_line output_prob score realignment textequivs
      words textlines = Inr seq"
    and keys: "sorted_wrt (<) (boundaries input_line textequivs)"
    and first: "realignment (hd (boundaries input_line textequivs)) = Some 0"
    and mono: "\<forall>i1 i2 j1 j2. realignment i1 = Some j1 \<longrightarrow> realignment i2 = Some j2
        \<longrightarrow> i1 < i2 \<longrightarrow> j1 \<le> j2"
    and bound: "\<forall>k \<in> set (boundaries input_line textequivs). \<forall>v. realignment k = Some v
        \<longrightarrow> v \<le> length output_line"
  shows "content_length seq = length output_line"
proof -
  define tes where "tes = setdefault (length input_line) None
     (map (\<lambda>e. (fst e, Some (snd e))) textequivs)"
  obtain k0 ks where ks: "boundaries input_line textequivs = k0 # ks"
    using boundaries_nonempty [of input_line textequivs]
    by (cases "boundaries input_line textequivs") auto
  from first ks have k0: "realignment k0 = Some 0" by simp
  have st: "update_step input_line output_line output_prob realignment tes words textlines
      k0 None [] = Inr (Some (k0, 0), [])"
    using k0 by (rule update_step_first)
  have mk: "map fst tes = k0 # ks"
    unfolding tes_def keys_setdefault ks ..
  from upd have "\<exists>lp. update_loop input_line output_line output_prob realignment
      tes words textlines (map fst tes) None [] = Inr (lp, seq)
      \<and> lp = Some (length input_line, length output_line)"
    unfolding update_sequence_def Let_def tes_def [symmetric]
    by (auto split: if_splits sum.splits prod.splits)
  then obtain lp where loop: "update_loop input_line output_line output_prob realignment
      tes words textlines ks (Some (k0, 0)) [] = Inr (lp, seq)"
    and lp: "lp = Some (length input_line, length output_line)"
    by (auto simp: mk st)
  have c0: "content_length ([] :: (textequiv \<times> 'a option \<times> 'b option) list) = 0"
    by (simp add: content_length_def)
  from bound ks have later: "\<forall>k \<in> set ks. \<forall>v. realignment k = Some v
      \<longrightarrow> 0 \<le> v \<and> v \<le> length output_line"
    by simp
  from keys ks have "sorted_wrt (<) ks" by simp
  then have "sorted_wrt (\<lambda>a b. \<forall>va vb. realignment a = Some va \<longrightarrow> realignment b = Some vb
      \<longrightarrow> va \<le> vb) ks"
    by (rule sorted_wrt_mono_rel [rotated]) (use mono in blast)
  then have ps: "path_sorted realignment ks" by (simp add: path_sorted_def)
  from update_loop_partition [OF loop c0 _ later ps] lp show ?thesis by simp
qed

lemma sorted_offsets:
  "\<forall>t \<in> set ts. Unicode t \<noteq> [] \<Longrightarrow> sorted_wrt (<) (offsets i ts)
     \<and> (\<forall>k \<in> set (offsets i ts). i \<le> k \<and> k < i + sum_list (map (\<lambda>t. length (Unicode t)) ts))"
proof (induction ts arbitrary: i)
  case Nil
  then show ?case by simp
next
  case (Cons t ts)
  from Cons.prems have pos: "0 < length (Unicode t)" by simp
  from Cons.prems have "\<forall>t \<in> set ts. Unicode t \<noteq> []" by simp
  from Cons.IH [OF this, of "i + length (Unicode t)"]
  have srt: "sorted_wrt (<) (offsets (i + length (Unicode t)) ts)"
    and bnd: "\<And>k. k \<in> set (offsets (i + length (Unicode t)) ts)
      \<Longrightarrow> i + length (Unicode t) \<le> k
        \<and> k < i + length (Unicode t) + sum_list (map (\<lambda>t. length (Unicode t)) ts)"
    by blast+
  have gt: "\<forall>k \<in> set (offsets (i + length (Unicode t)) ts). i < k"
  proof
    fix k assume "k \<in> set (offsets (i + length (Unicode t)) ts)"
    from bnd [OF this] pos show "i < k" by linarith
  qed
  have "\<forall>k \<in> set (offsets i (t # ts)).
      i \<le> k \<and> k < i + sum_list (map (\<lambda>t. length (Unicode t)) (t # ts))"
  proof
    fix k assume "k \<in> set (offsets i (t # ts))"
    then consider "k = i" | "k \<in> set (offsets (i + length (Unicode t)) ts)" by auto
    then show "i \<le> k \<and> k < i + sum_list (map (\<lambda>t. length (Unicode t)) (t # ts))"
    proof cases
      case 1
      with pos show ?thesis by simp
    next
      case 2
      from bnd [OF this] show ?thesis by simp
    qed
  qed
  with gt srt show ?case by simp
qed

lemma boundaries_line_strings_of:
  "boundaries (line_input (line_strings_of gap ls)) (textequiv_starts (line_strings_of gap ls))
   = offsets 0 (map (\<lambda>e. gap_subst gap (fst e)) ls)
     @ [length (line_input (line_strings_of gap ls))]"
proof -
  define spans where "spans = map (\<lambda>e. gap_subst gap (fst e)) ls"
  have ne: "\<forall>t \<in> set spans. Unicode t \<noteq> []" by (auto simp: spans_def)
  have len: "length (concat (map Unicode spans)) = sum_list (map (\<lambda>t. length (Unicode t)) spans)"
    by (simp add: length_concat comp_def)
  from sorted_offsets [OF ne, of 0] len
  have "length (concat (map Unicode spans)) \<notin> set (offsets 0 spans)" by auto
  then show ?thesis
    by (simp add: boundaries_def line_strings_of_def Let_def spans_def [symmetric])
qed


text \<open>
  Claim C4.  For every line that the extraction yields, the lengths of the contents
  in the position map add up to the length of the line string.  If the path maps
  \<open>0\<close> to \<open>0\<close> and the length of the input to the length of the output and is
  non-decreasing (as the path of the aligner is), and \<open>_update_sequence\<close> returns, then
  the lengths of the contents of the emitted elements add up to the length of the
  output line.
\<close>

theorem position_map_lengths:
  assumes ext: "line_sequences2string_sequences mapping gap line_sequences = Inr rs"
    and r: "r \<in> set rs"
  shows "sum_list (map (\<lambda>e. length (Unicode (snd e))) (textequiv_starts r))
           = length (line_input r)
     \<and> (\<forall>output_line output_prob score realignment seq.
           realignment 0 = Some 0
           \<longrightarrow> realignment (length (line_input r)) = Some (length output_line)
           \<longrightarrow> (\<forall>i1 i2 j1 j2. realignment i1 = Some j1 \<longrightarrow> realignment i2 = Some j2
                  \<longrightarrow> i1 < i2 \<longrightarrow> j1 \<le> j2)
           \<longrightarrow> update_sequence (line_input r) output_line output_prob score realignment
                 (textequiv_starts r) (word_starts r) (textline_starts r) = Inr seq
           \<longrightarrow> sum_list (map (\<lambda>e. length (Unicode (fst e))) seq) = length output_line)"
proof -
  from ext have "rs = map (line_strings_of gap) line_sequences"
    by (simp add: line_sequences2string_sequences_eq split: if_splits)
  with r obtain ls where r_eq: "r = line_strings_of gap ls" by auto
  define spans where "spans = map (\<lambda>e. gap_subst gap (fst e)) ls"
  have ne: "\<forall>t \<in> set spans. Unicode t \<noteq> []" by (auto simp: spans_def)
  have input: "line_input r = concat (map Unicode spans)"
    and starts: "textequiv_starts r = zip (offsets 0 spans) spans"
    by (simp_all add: r_eq line_strings_of_def Let_def spans_def)
  have len: "length (line_input r) = sum_list (map (\<lambda>t. length (Unicode t)) spans)"
    by (simp add: input length_concat comp_def)
  have "map snd (textequiv_starts r) = spans"
    by (simp add: starts)
  then have "map (\<lambda>t. length (Unicode t)) (map snd (textequiv_starts r))
      = map (\<lambda>t. length (Unicode t)) spans"
    by simp
  then have "map (\<lambda>e. length (Unicode (snd e))) (textequiv_starts r)
      = map (\<lambda>t. length (Unicode t)) spans"
    by (simp add: comp_def)
  with len have before: "sum_list (map (\<lambda>e. length (Unicode (snd e))) (textequiv_starts r))
      = length (line_input r)"
    by simp
  have bd: "boundaries (line_input r) (textequiv_starts r)
      = offsets 0 spans @ [length (line_input r)]"
    unfolding r_eq spans_def by (rule boundaries_line_strings_of)
  from sorted_offsets [OF ne, of 0] len
  have so: "sorted_wrt (<) (offsets 0 spans)"
    and lt: "\<forall>k \<in> set (offsets 0 spans). k < length (line_input r)"
    by simp_all
  from so lt have keys: "sorted_wrt (<) (boundaries (line_input r) (textequiv_starts r))"
    by (simp add: bd sorted_wrt_append)
  have hd0: "hd (boundaries (line_input r) (textequiv_starts r)) = 0"
  proof (cases spans)
    case Nil
    with bd have "boundaries (line_input r) (textequiv_starts r) = [length (line_input r)]"
      by simp
    then have "hd (boundaries (line_input r) (textequiv_starts r)) = length (line_input r)"
      by (simp only: list.sel)
    moreover from input Nil have "length (line_input r) = 0" by simp
    ultimately show ?thesis by (simp only:)
  next
    case (Cons t ts)
    then show ?thesis by (simp add: bd)
  qed
  have after: "sum_list (map (\<lambda>e. length (Unicode (fst e))) seq) = length output_line"
    if p0: "realignment 0 = Some 0"
      and pI: "realignment (length (line_input r)) = Some (length output_line)"
      and mono: "\<forall>i1 i2 j1 j2. realignment i1 = Some j1 \<longrightarrow> realignment i2 = Some j2
                  \<longrightarrow> i1 < i2 \<longrightarrow> j1 \<le> j2"
      and upd: "update_sequence (line_input r) output_line output_prob score realignment
                 (textequiv_starts r) (word_starts r) (textline_starts r) = Inr seq"
    for output_line output_prob score realignment seq
  proof -
    have first: "realignment (hd (boundaries (line_input r) (textequiv_starts r))) = Some 0"
      using p0 by (simp add: hd0)
    have bound: "\<forall>k \<in> set (boundaries (line_input r) (textequiv_starts r)).
        \<forall>v. realignment k = Some v \<longrightarrow> v \<le> length output_line"
    proof (intro ballI allI impI)
      fix k v
      assume k: "k \<in> set (boundaries (line_input r) (textequiv_starts r))"
        and v: "realignment k = Some v"
      from k lt have "k < length (line_input r) \<or> k = length (line_input r)"
        by (auto simp: bd)
      then show "v \<le> length output_line"
      proof
        assume "k < length (line_input r)"
        with mono v pI show ?thesis by blast
      next
        assume "k = length (line_input r)"
        with v pI show ?thesis by simp
      qed
    qed
    from update_sequence_partition [OF upd keys first mono bound]
    show ?thesis by (simp add: content_length_def)
  qed
  from before after show ?thesis by blast
qed


theorem position_map_lengths_witness:
  "line_sequences2string_sequences Map.empty 7 [ex_line_sequence] = Inr [ex_line_strings]
   \<and> sum_list (map (\<lambda>e. length (Unicode (snd e))) (textequiv_starts ex_line_strings)) = 2
   \<and> update_sequence [97, 10] [32, 97, 10] [1, 1, 1] 0 [0 \<mapsto> 0, 1 \<mapsto> 2, 2 \<mapsto> 3]
        ex_a ex_a_words ex_a_words
      = Inr [(\<lparr>Unicode = [32, 97], conf = Some 1, index = None\<rparr>, Some 1, Some 1),
             (\<lparr>Unicode = [10], conf = Some 1, index = Some (- 1)\<rparr>, Some 1, Some 1)]
   \<and> sum_list (map (\<lambda>e. length (Unicode (fst e)))
        [(\<lparr>Unicode = [32, 97], conf = Some 1, index = None\<rparr>, Some (1::nat), Some (1::nat)),
         (\<lparr>Unicode = [10], conf = Some 1, index = Some (- 1)\<rparr>, Some 1, Some 1)]) = 3"
proof -
  have ext: "line_sequences2string_sequences Map.empty 7 [ex_line_sequence]
      = Inr [ex_line_strings]"
    by code_simp
  have r: "ex_line_strings \<in> set [ex_line_strings]" by simp
  have fields: "line_input ex_line_strings = [97, 10]" "textequiv_starts ex_line_strings = ex_a"
    "word_starts ex_line_strings = ex_a_words" "textline_starts ex_line_strings = ex_a_words"
    by (simp_all add: ex_line_strings_def)
  have run: "update_sequence [97, 10] [32, 97, 10] [1, 1, 1] 0 [0 \<mapsto> 0, 1 \<mapsto> 2, 2 \<mapsto> 3]
        ex_a ex_a_words ex_a_words
      = Inr [(\<lparr>Unicode = [32, 97], conf = Some 1, index = None\<rparr>, Some 1, Some 1),
             (\<lparr>Unicode = [10], conf = Some 1, index = Some (- 1)\<rparr>, Some 1, Some 1)]"
    by code_simp
  have mono: "j1 \<le> j2"
    if "[0 \<mapsto> 0, 1 \<mapsto> 2, 2 \<mapsto> 3] i1 = Some j1"
      "[0 \<mapsto> 0, 1 \<mapsto> 2, 2 \<mapsto> 3] i2 = Some j2" "i1 < i2"
    for i1 i2 j1 j2 :: nat
    using that by (auto split: if_splits)
  note inst = position_map_lengths [OF ext r, unfolded fields]
  from inst have before:
    "sum_list (map (\<lambda>e. length (Unicode (snd e))) ex_a) = length [97, 10 :: nat]"
    by (rule conjunct1)
  from inst have "\<forall>output_line output_prob score realignment seq.
           realignment 0 = Some 0
           \<longrightarrow> realignment (length [97, 10 :: nat]) = Some (length output_line)
           \<longrightarrow> (\<forall>i1 i2 j1 j2. realignment i1 = Some j1 \<longrightarrow> realignment i2 = Some j2
                  \<longrightarrow> i1 < i2 \<longrightarrow> j1 \<le> j2)
           \<longrightarrow> update_sequence [97, 10] output_line output_prob score realignment
                 ex_a ex_a_words ex_a_words = Inr seq
           \<longrightarrow> sum_list (map (\<lambda>e. length (Unicode (fst e))) seq) = length output_line"
    by (rule conjunct2)
  from this [rule_format, OF _ _ mono run]
  have after: "sum_list (map (\<lambda>e. length (Unicode (fst e)))
        [(\<lparr>Unicode = [32, 97], conf = Some 1, index = None\<rparr>, Some (1::nat), Some (1::nat)),
         (\<lparr>Unicode = [10], conf = Some 1, index = Some (- 1)\<rparr>, Some 1, Some 1)])
      = length [32, 97, 10 :: nat]"
    by simp
  from ext before run after show ?thesis by (simp add: fields)
qed


section \<open>Correcting a line to itself\<close>

text \<open>
  On an alignment that is effectively the identity, the cursor of the forward pass
  walks down the diagonal, and so does the backward pass.
\<close>

lemma identity_like_lookup:
  "identity_like alignment n min_score \<Longrightarrow> i < n \<Longrightarrow> j < n
   \<Longrightarrow> lookup2 alignment j i = Inr (alignment ! j ! i)
       \<and> (min_score < alignment ! j ! i) = (i = j)"
  using covers_lookup2 [of alignment n n i j] by (simp add: identity_like_def)

lemma advance_to_diagonal:
  assumes id: "identity_like alignment n min_score" and j: "j < n"
  shows "i < j \<Longrightarrow> advance alignment n n min_score i j = Inr (j, j)"
proof (induction "j - i" arbitrary: i)
  case 0
  then show ?case by simp
next
  case (Suc d)
  from Suc.prems j have i1: "i + 1 < n" "i + 1 \<noteq> n" by simp_all
  from identity_like_lookup [OF id i1(1) j]
  have look: "lookup2 alignment j (i + 1) = Inr (alignment ! j ! (i + 1))"
    and hit: "(min_score < alignment ! j ! (i + 1)) = (i + 1 = j)"
    by simp_all
  show ?case
  proof (cases "i + 1 = j")
    case True
    with hit have "min_score < alignment ! j ! (i + 1)" by simp
    from advance_hit [OF i1(2) look this] True show ?thesis by simp
  next
    case False
    with hit have skip: "\<not> min_score < alignment ! j ! (i + 1)" by simp
    from False Suc.prems have lt: "i + 1 < j" by simp
    from Suc.hyps(2) have "d = j - (i + 1)" by simp
    from Suc.hyps(1) [OF this lt] advance_skip [OF i1(2) look skip] show ?thesis by simp
  qed
qed

lemma advance_from_row:
  assumes id: "identity_like alignment n min_score" and k: "k + 1 < n"
  shows "k \<le> i \<Longrightarrow> i < n \<Longrightarrow> advance alignment n n min_score i k = Inr (k + 1, k + 1)"
proof (induction "n - i" arbitrary: i)
  case 0
  then show ?case by simp
next
  case (Suc d)
  show ?case
  proof (cases "i + 1 = n")
    case True
    from k have ne: "k + 1 \<noteq> n" and pos: "0 < n" by simp_all
    from identity_like_lookup [OF id pos k]
    have look: "lookup2 alignment (k + 1) 0 = Inr (alignment ! (k + 1) ! 0)"
      and skip: "\<not> min_score < alignment ! (k + 1) ! 0"
      by simp_all
    from advance_wrap_skip [OF True ne look skip]
      advance_to_diagonal [OF id k, of 0]
    show ?thesis by simp
  next
    case False
    with Suc.prems have i1: "i + 1 < n" by simp
    from k have kn: "k < n" by simp
    from identity_like_lookup [OF id i1 kn] Suc.prems
    have look: "lookup2 alignment k (i + 1) = Inr (alignment ! k ! (i + 1))"
      and skip: "\<not> min_score < alignment ! k ! (i + 1)"
      by simp_all
    from Suc.hyps(2) have "d = n - (i + 1)" by simp
    from Suc.hyps(1) [OF this _ i1] Suc.prems advance_skip [OF False look skip]
    show ?thesis by simp
  qed
qed

lemma advance_from_last_row:
  assumes id: "identity_like alignment n min_score" and k: "k + 1 = n"
  shows "k \<le> i \<Longrightarrow> i < n \<Longrightarrow> advance alignment n n min_score i k = Inr (n, n)"
proof (induction "n - i" arbitrary: i)
  case 0
  then show ?case by simp
next
  case (Suc d)
  show ?case
  proof (cases "i + 1 = n")
    case True
    from advance_last [OF True k] show ?thesis .
  next
    case False
    with Suc.prems have i1: "i + 1 < n" by simp
    from k have kn: "k < n" by simp
    from identity_like_lookup [OF id i1 kn] Suc.prems
    have look: "lookup2 alignment k (i + 1) = Inr (alignment ! k ! (i + 1))"
      and skip: "\<not> min_score < alignment ! k ! (i + 1)"
      by simp_all
    from Suc.hyps(2) have "d = n - (i + 1)" by simp
    from Suc.hyps(1) [OF this _ i1] Suc.prems advance_skip [OF False look skip]
    show ?thesis by simp
  qed
qed

lemma advance_diagonal:
  assumes "identity_like alignment n min_score" "k < n"
  shows "advance alignment n n min_score k k = Inr (k + 1, k + 1)"
proof (cases "k + 1 = n")
  case True
  from advance_from_last_row [OF assms(1) True, of k] assms(2) True show ?thesis by simp
next
  case False
  with assms(2) have "k + 1 < n" by simp
  from advance_from_row [OF assms(1) this, of k] assms(2) show ?thesis by simp
qed


lemma forward_identity:
  fixes alignment :: "('a::{linorder,ordered_comm_monoid_add}) list list"
  assumes id: "identity_like alignment n min_score" and th: "0 \<le> min_score"
  shows "k \<le> n \<Longrightarrow> diag_filled viterbi_fw k
     \<Longrightarrow> \<exists>v. forward alignment n n min_score viterbi_fw k k = Inr v \<and> diag_filled v n"
proof (induction "n - k" arbitrary: k viterbi_fw)
  case 0
  then have "k = n" by simp
  with "0.prems" show ?case by (simp add: forward_stop)
next
  case (Suc d)
  from Suc.hyps(2) have k: "k < n" by simp
  from identity_like_lookup [OF id k k]
  have look: "lookup2 alignment k k = Inr (alignment ! k ! k)"
    and hit: "min_score < alignment ! k ! k"
    by simp_all
  from th hit have apos: "0 < alignment ! k ! k" by simp
  define m where "m = max (if 0 < k then viterbi_fw (k - 1, k) else 0)
      (max (if 0 < k then viterbi_fw (k, k - 1) else 0)
           (if 0 < k \<and> 0 < k then viterbi_fw (k - 1, k - 1) else 0))"
  from Suc.prems(2) have off: "\<And>i j. i \<noteq> j \<Longrightarrow> viterbi_fw (i, j) = 0"
    and dia: "\<And>d. d < k \<Longrightarrow> 0 < viterbi_fw (d, d)"
    by (simp_all add: diag_filled_def)
  have "0 \<le> m"
  proof (cases "0 < k")
    case True
    then have "k - 1 < k" by simp
    from dia [OF this] have "0 \<le> viterbi_fw (k - 1, k - 1)" by simp
    with True show ?thesis by (simp add: m_def le_max_iff_disj)
  next
    case False
    then show ?thesis by (simp add: m_def)
  qed
  with apos have pos: "0 < alignment ! k ! k + m" by (rule add_pos_nonneg)
  define v' where "v' = viterbi_fw((k, k) := alignment ! k ! k + m)"
  have inv: "diag_filled v' (k + 1)"
    unfolding diag_filled_def
  proof (intro conjI allI impI)
    fix i j :: nat assume "i \<noteq> j"
    with off show "v' (i, j) = 0" by (auto simp: v'_def)
  next
    fix d assume "d < k + 1"
    with dia pos show "0 < v' (d, d)" by (cases "d = k") (simp_all add: v'_def)
  qed
  from forward_step [OF k k look advance_diagonal [OF id k], of viterbi_fw]
  have step: "forward alignment n n min_score viterbi_fw k k
      = forward alignment n n min_score v' (k + 1) (k + 1)"
    by (simp add: v'_def m_def)
  from Suc.hyps(2) k have "d = n - (k + 1)" "k + 1 \<le> n" by simp_all
  from Suc.hyps(1) [OF this inv] step show ?case by simp
qed

lemma bw_next_diagonal:
  fixes viterbi_fw :: "nat \<times> nat \<Rightarrow> 'a::{zero,linorder}"
  assumes "diag_filled viterbi_fw n" "0 \<le> k" "k < int n"
  shows "bw_next viterbi_fw n n k k = (k - 1, k - 1)"
proof -
  define p where "p = nat (if k - 1 < 0 then k - 1 + int n else k - 1)"
  from assms(2,3) have pn: "p < n" by (auto simp: p_def)
  from assms(1) have off: "\<And>i j. i \<noteq> j \<Longrightarrow> viterbi_fw (i, j) = 0"
    and dia: "\<And>d. d < n \<Longrightarrow> 0 < viterbi_fw (d, d)"
    by (simp_all add: diag_filled_def)
  from assms(2) have r1: "vread viterbi_fw n n k (k - 1) = viterbi_fw (nat k, p)"
    and r2: "vread viterbi_fw n n (k - 1) k = viterbi_fw (p, nat k)"
    and r3: "vread viterbi_fw n n (k - 1) (k - 1) = viterbi_fw (p, p)"
    by (simp_all add: vread_def p_def)
  show ?thesis
  proof (cases "p = nat k")
    case True
    then show ?thesis by (simp add: bw_next_def r1 r2 r3)
  next
    case False
    then have "viterbi_fw (nat k, p) = 0" "viterbi_fw (p, nat k) = 0"
      by (simp_all add: off)
    moreover from dia [OF pn] have "\<not> viterbi_fw (p, p) < 0" by simp
    ultimately show ?thesis by (simp add: bw_next_def r1 r2 r3)
  qed
qed

lemma backward_identity:
  fixes viterbi_fw :: "nat \<times> nat \<Rightarrow> 'a::{zero,linorder}"
  assumes df: "diag_filled viterbi_fw n"
  shows "- 1 \<le> k \<Longrightarrow> k < int n
     \<Longrightarrow> backward viterbi_fw n n r k k
         = Inr ((\<lambda>x. if int x \<le> k then Some x else r x)(0 \<mapsto> 0))"
proof (induction "nat (k + 1)" arbitrary: k r)
  case 0
  then have "k = - 1" by simp
  then show ?case by (simp add: backward_stop fun_eq_iff)
next
  case (Suc d)
  then have k0: "0 \<le> k" by simp
  from backward_step [OF k0 k0 Suc.prems(2) Suc.prems(2) bw_next_diagonal [OF df k0 Suc.prems(2)]]
  have step: "backward viterbi_fw n n r k k
      = backward viterbi_fw n n (r(nat k \<mapsto> nat k)) (k - 1) (k - 1)" .
  from Suc.hyps(2) k0 have "d = nat (k - 1 + 1)" by simp
  moreover from k0 have "- 1 \<le> k - 1" by simp
  moreover from Suc.prems(2) have "k - 1 < int n" by simp
  ultimately have "backward viterbi_fw n n (r(nat k \<mapsto> nat k)) (k - 1) (k - 1)
      = Inr ((\<lambda>x. if int x \<le> k - 1 then Some x else (r(nat k \<mapsto> nat k)) x)(0 \<mapsto> 0))"
    by (rule Suc.hyps(1))
  moreover have "(\<lambda>x. if int x \<le> k - 1 then Some x else (r(nat k \<mapsto> nat k)) x)
      = (\<lambda>x. if int x \<le> k then Some x else r x)"
    using k0 by (auto simp: fun_eq_iff)
  ultimately show ?case using step by simp
qed

lemma alignment2path_identity:
  fixes alignment :: "('a::{linorder,ordered_comm_monoid_add}) list list"
  assumes id: "identity_like alignment n min_score" and th: "0 \<le> min_score" and n: "1 \<le> n"
  shows "alignment2path alignment n n min_score = Inr (\<lambda>i. if i \<le> n then Some i else None)"
proof -
  have "diag_filled (\<lambda>_. 0 :: 'a) 0" by (simp add: diag_filled_def)
  from forward_identity [OF id th _ this] obtain v where
    v: "forward alignment n n min_score (\<lambda>_. 0) 0 0 = Inr v" and df: "diag_filled v n"
    by auto
  have si: "start_i v n n = Inr (int n - 1)" "start_j v n n = Inr (int n - 1)"
    by (simp_all add: start_i_def start_j_def)
  from n have "- 1 \<le> int n - 1" "int n - 1 < int n" by simp_all
  from backward_identity [OF df this, of "[n \<mapsto> n]"]
  have "backward v n n [n \<mapsto> n] (int n - 1) (int n - 1)
      = Inr ((\<lambda>x. if int x \<le> int n - 1 then Some x else [n \<mapsto> n] x)(0 \<mapsto> 0))" .
  moreover have "(\<lambda>x. if int x \<le> int n - 1 then Some x else [n \<mapsto> n] x)(0 \<mapsto> 0)
      = (\<lambda>i. if i \<le> n then Some i else None)"
    using n by (auto simp: fun_eq_iff)
  ultimately show ?thesis by (simp add: alignment2path_def v si)
qed

text \<open>
  With the identity path and the output equal to the input, no redistribution takes
  place for a clean content, and every step commits the element as it is, with a new
  confidence.
\<close>

lemma redistribute_clean:
  assumes "clean_span (slice input_line a i)"
  shows "redistribute input_line input_line a i acc a i = (acc, a, i, slice input_line a i)"
proof (cases "slice input_line a i = [SP] \<or> slice input_line a i = [NL]")
  case True
  then show ?thesis
    by (auto simp: redistribute_def redistribute_ws_def starts_ws_def ends_ws_def
        has_token_def isspace_def SP_def NL_def)
next
  case False
  with assms have "(slice input_line a i = [] \<or> hd (slice input_line a i) \<noteq> SP)"
    "\<not> ends_ws (slice input_line a i)"
    by (simp_all add: clean_span_def)
  with False show ?thesis
    by (auto simp: redistribute_def redistribute_nonws_def)
qed

lemma update_step_identity:
  assumes d: "map_of textequivs a = Some (Some t)"
    and w: "map_of words a = Some word" and l: "map_of textlines a = Some textline"
    and u: "Unicode t = slice input_line a i" and c: "clean_span (Unicode t)"
    and p: "realignment i = Some i"
  shows "update_step input_line input_line output_prob realignment textequivs words textlines
           i (Some (a, a)) acc
         = Inr (Some (i, i),
             acc @ [(t\<lparr>conf := Some (mean (if slice output_prob a i = [] then [1]
                                           else slice output_prob a i))\<rparr>, word, textline)])"
proof -
  from c u have "clean_span (slice input_line a i)" by simp
  from redistribute_clean [OF this, of acc] p
  have "redistribute input_line input_line a i acc a
      (case realignment i of Some j \<Rightarrow> j | None \<Rightarrow> a) = (acc, a, i, slice input_line a i)"
    by simp
  from update_step_commit [where realignment = realignment and i = i
      and output_prob = output_prob, OF d w l this] u
  show ?thesis
    by simp
qed

lemma keys_head:
  assumes "drop b input_line = concat (map (\<lambda>e. Unicode (fst e)) es)" "b \<le> length input_line"
    "es = [] \<longrightarrow> b = length input_line"
  shows "offsets b (map fst es) @ [length input_line]
     = b # tl (offsets b (map fst es) @ [length input_line])"
  using assms by (cases es) simp_all

lemma update_loop_identity:
  assumes path: "\<forall>i \<le> length input_line. realignment i = Some i"
  shows "\<forall>e \<in> set es. clean_span (Unicode (fst e))
     \<Longrightarrow> drop a input_line = concat (map (\<lambda>e. Unicode (fst e)) es)
     \<Longrightarrow> a \<le> length input_line
     \<Longrightarrow> \<forall>m < length es.
           map_of textequivs (offsets a (map fst es) ! m) = Some (Some (fst (es ! m)))
           \<and> map_of words (offsets a (map fst es) ! m) = Some (fst (snd (es ! m)))
           \<and> map_of textlines (offsets a (map fst es) ! m) = Some (snd (snd (es ! m)))
     \<Longrightarrow> update_loop input_line input_line output_prob realignment textequivs words textlines
           (tl (offsets a (map fst es) @ [length input_line])) (Some (a, a)) acc
         = Inr (Some (length input_line, length input_line), acc @ rescore output_prob a es)"
proof (induction es arbitrary: a acc)
  case Nil
  then have "a = length input_line" by simp
  then show ?case by simp
next
  case (Cons e es)
  define i where "i = a + length (Unicode (fst e))"
  from Cons.prems(2) have dr: "drop a input_line = Unicode (fst e) @ concat (map (\<lambda>e. Unicode (fst e)) es)"
    by simp
  then have "length (drop a input_line)
      = length (Unicode (fst e)) + length (concat (map (\<lambda>e. Unicode (fst e)) es))"
    by simp
  with Cons.prems(3) have ile: "i \<le> length input_line"
    and last_i: "es = [] \<longrightarrow> i = length input_line"
    by (auto simp: i_def)
  have "drop i input_line = drop (length (Unicode (fst e))) (drop a input_line)"
    by (simp add: i_def add.commute)
  with dr have dr': "drop i input_line = concat (map (\<lambda>e. Unicode (fst e)) es)"
    by simp
  from dr have u: "Unicode (fst e) = slice input_line a i"
    by (simp add: slice_def i_def)
  from Cons.prems(1) have c: "clean_span (Unicode (fst e))" by simp
  from Cons.prems(4) [rule_format, of 0]
  have d: "map_of textequivs a = Some (Some (fst e))"
    and w: "map_of words a = Some (fst (snd e))"
    and l: "map_of textlines a = Some (snd (snd e))"
    by simp_all
  from path ile have p: "realignment i = Some i" by simp
  note step = update_step_identity [where realignment = realignment and i = i
      and output_prob = output_prob and acc = acc, OF d w l u c p]
  have keys: "tl (offsets a (map fst (e # es)) @ [length input_line])
      = i # tl (offsets i (map fst es) @ [length input_line])"
    using keys_head [OF dr' ile last_i] by (simp add: i_def)
  have look: "\<forall>m < length es.
           map_of textequivs (offsets i (map fst es) ! m) = Some (Some (fst (es ! m)))
           \<and> map_of words (offsets i (map fst es) ! m) = Some (fst (snd (es ! m)))
           \<and> map_of textlines (offsets i (map fst es) ! m) = Some (snd (snd (es ! m)))"
  proof (intro allI impI)
    fix m assume "m < length es"
    then have "Suc m < length (e # es)" by simp
    from Cons.prems(4) [rule_format, OF this]
    show "map_of textequivs (offsets i (map fst es) ! m) = Some (Some (fst (es ! m)))
           \<and> map_of words (offsets i (map fst es) ! m) = Some (fst (snd (es ! m)))
           \<and> map_of textlines (offsets i (map fst es) ! m) = Some (snd (snd (es ! m)))"
      by (simp add: i_def)
  qed
  from Cons.prems(1) have cl: "\<forall>e \<in> set es. clean_span (Unicode (fst e))" by simp
  note ih = Cons.IH [OF cl dr' ile look]
  show ?case
    by (simp only: keys update_loop.simps step sum.case prod.case ih)
       (simp add: i_def)
qed

lemma rescore_content:
  "map (\<lambda>e. Unicode (fst e)) (rescore output_prob a es) = map (\<lambda>e. Unicode (fst e)) es
   \<and> map (\<lambda>e. index (fst e)) (rescore output_prob a es) = map (\<lambda>e. index (fst e)) es
   \<and> map snd (rescore output_prob a es) = map snd es"
  by (induction es arbitrary: a) simp_all

lemma rescore_lost:
  "list_ex (\<lambda>e. has_token (Unicode (fst e)) \<and> index (fst e) = Some (- 1)) (rescore output_prob a es)
   = list_ex (\<lambda>e. has_token (Unicode (fst e)) \<and> index (fst e) = Some (- 1)) es"
  by (induction es arbitrary: a) simp_all

lemma list_ex_zip_snd:
  assumes "length xs = length ys"
  shows "list_ex (\<lambda>e. P (snd e)) (zip xs ys) = list_ex P ys"
  using assms by (induction xs ys rule: list_induct2) simp_all

lemma update_sequence_identity:
  assumes ne: "\<forall>e \<in> set ls. Unicode (fst e) \<noteq> []"
    and clean: "\<forall>e \<in> set ls. clean_span (Unicode (fst e))"
    and ws: "\<forall>e \<in> set ls. index (fst e) = Some (- 1) \<longrightarrow> \<not> has_token (Unicode (fst e))"
    and line: "list_ex (\<lambda>e. snd (snd e) \<noteq> None) ls"
    and path: "\<forall>i \<le> length (line_input (line_strings_of gap ls)). realignment i = Some i"
  shows "update_sequence (line_input (line_strings_of gap ls)) (line_input (line_strings_of gap ls))
           output_prob score realignment
           (textequiv_starts (line_strings_of gap ls)) (word_starts (line_strings_of gap ls))
           (textline_starts (line_strings_of gap ls))
         = Inr (rescore output_prob 0 ls)"
proof -
  define r where "r = line_strings_of gap ls"
  define offs where "offs = offsets 0 (map fst ls)"
  define n where "n = length (line_input r)"
  define D where "D = setdefault n None (map (\<lambda>e. (fst e, Some (snd e))) (textequiv_starts r))"
  from ne have spans: "map (\<lambda>e. gap_subst gap (fst e)) ls = map fst ls"
    by (simp add: gap_subst_def)
  have input: "line_input r = concat (map (\<lambda>e. Unicode (fst e)) ls)"
    and te: "textequiv_starts r = zip offs (map fst ls)"
    and wd: "word_starts r = zip offs (map (\<lambda>e. fst (snd e)) ls)"
    and tl: "textline_starts r = zip offs (map (\<lambda>e. snd (snd e)) ls)"
    by (simp_all add: r_def line_strings_of_def Let_def spans offs_def comp_def)
  have bd: "boundaries (line_input r) (textequiv_starts r) = offs @ [n]"
    using boundaries_line_strings_of [of gap ls] by (simp add: r_def spans offs_def n_def)
  from ne have "\<forall>t \<in> set (map fst ls). Unicode t \<noteq> []" by simp
  from sorted_offsets [OF this, of 0] have "sorted_wrt (<) offs" by (simp add: offs_def)
  then have dist: "distinct offs" by (simp add: strict_sorted_iff)
  have len: "length offs = length ls" by (simp add: offs_def)
  have dr: "drop 0 (line_input r) = concat (map (\<lambda>e. Unicode (fst e)) ls)"
    by (simp add: input)
  have emp: "ls = [] \<longrightarrow> 0 = length (line_input r)" by (simp add: input)
  from keys_head [OF dr _ emp] have keys: "offs @ [n] = 0 # tl (offs @ [n])"
    by (simp add: offs_def n_def)
  from path have p0: "realignment 0 = Some 0" by simp
  have look: "\<forall>m < length ls.
           map_of D (offsets 0 (map fst ls) ! m) = Some (Some (fst (ls ! m)))
           \<and> map_of (word_starts r) (offsets 0 (map fst ls) ! m) = Some (fst (snd (ls ! m)))
           \<and> map_of (textline_starts r) (offsets 0 (map fst ls) ! m) = Some (snd (snd (ls ! m)))"
  proof (intro allI impI conjI)
    fix m assume m: "m < length ls"
    from dist have d: "distinct (map fst (zip offs (map fst ls)))" by (simp add: len)
    from m have ml: "m < length (zip offs (map fst ls))" by (simp add: len)
    from map_of_setdefault_nth [OF d ml, of n] m
    show "map_of D (offsets 0 (map fst ls) ! m) = Some (Some (fst (ls ! m)))"
      by (simp add: D_def te len offs_def [symmetric])
    from m show "map_of (word_starts r) (offsets 0 (map fst ls) ! m) = Some (fst (snd (ls ! m)))"
      using map_of_zip_nth [of offs "map (\<lambda>e. fst (snd e)) ls" m] dist
      by (simp add: wd len offs_def [symmetric])
    from m show "map_of (textline_starts r) (offsets 0 (map fst ls) ! m)
        = Some (snd (snd (ls ! m)))"
      using map_of_zip_nth [of offs "map (\<lambda>e. snd (snd e)) ls" m] dist
      by (simp add: tl len offs_def [symmetric])
  qed
  from path have path': "\<forall>i \<le> length (line_input r). realignment i = Some i"
    by (simp add: r_def)
  from update_loop_identity [OF path' clean dr _ look, of output_prob "[]"]
  have loop: "update_loop (line_input r) (line_input r) output_prob realignment D (word_starts r)
      (textline_starts r) (tl (offs @ [n])) (Some (0, 0)) []
      = Inr (Some (n, n), rescore output_prob 0 ls)"
    by (simp add: offs_def n_def)
  have kD: "map fst D = offs @ [length (line_input r)]"
    using keys_setdefault [of "line_input r" "textequiv_starts r"] bd
    by (simp add: D_def n_def)
  have first: "update_step (line_input r) (line_input r) output_prob realignment D
      (word_starts r) (textline_starts r) 0 None [] = Inr (Some (0, 0), [])"
    using p0 by (rule update_step_first)
  have loop0: "update_loop (line_input r) (line_input r) output_prob realignment D (word_starts r)
      (textline_starts r) (offs @ [n]) None []
      = Inr (Some (n, n), rescore output_prob 0 ls)"
    by (subst keys) (simp only: update_loop.simps first sum.case prod.case loop)
  have "list_ex (\<lambda>e. snd e \<noteq> None) (zip offs (map (\<lambda>e. snd (snd e)) ls))
      = list_ex (\<lambda>x. x \<noteq> None) (map (\<lambda>e. snd (snd e)) ls)"
    by (rule list_ex_zip_snd) (simp add: len)
  with line have ex: "list_ex (\<lambda>e. snd e \<noteq> None) (textline_starts r)"
    by (simp add: tl list_ex_iff)
  from ws have "\<not> list_ex (\<lambda>e. has_token (Unicode (fst e)) \<and> index (fst e) = Some (- 1)) ls"
    by (auto simp: list_ex_iff)
  then have lost: "\<not> list_ex (\<lambda>e. has_token (Unicode (fst e)) \<and> index (fst e) = Some (- 1))
      (rescore output_prob 0 ls)"
    by (simp add: rescore_lost)
  have "update_sequence (line_input r) (line_input r) output_prob score realignment
           (textequiv_starts r) (word_starts r) (textline_starts r)
         = Inr (rescore output_prob 0 ls)"
    using ex lost
    by (simp add: update_sequence_def Let_def D_def [unfolded n_def, symmetric] kD
        loop0 [unfolded n_def])
  then show ?thesis by (simp add: r_def)
qed

text \<open>
  Claim C3, as amended.  Take a line that the extraction yields, without empty
  contents, whose contents are clean and whose implicit whitespace elements hold no
  token, and a soft alignment of the line with itself that is effectively the
  identity, with a non-negative threshold.  Then the hard path of \<open>_alignment2path\<close>
  maps every input offset \<open>0..I\<close> to itself, and \<open>_update_sequence\<close> with the output
  equal to the input returns every element with its content, index, word and line
  unchanged.  The confidence is not kept: it is overwritten with the mean of the
  output probabilities over the positions of the element.
\<close>

theorem identity_correction:
  fixes alignment :: "('a::{linorder,ordered_comm_monoid_add}) list list"
  assumes ext: "line_sequences2string_sequences mapping gap [ls] = Inr [r]"
    and nonempty: "ls \<noteq> []" "\<forall>e \<in> set ls. Unicode (fst e) \<noteq> []"
    and clean: "\<forall>e \<in> set ls. clean_span (Unicode (fst e))"
    and ws: "\<forall>e \<in> set ls. index (fst e) = Some (- 1) \<longrightarrow> \<not> has_token (Unicode (fst e))"
    and line: "list_ex (\<lambda>e. snd (snd e) \<noteq> None) ls"
    and id: "identity_like alignment (length (line_input r)) min_score"
    and th: "0 \<le> min_score"
  shows "alignment2path alignment (length (line_input r)) (length (line_input r)) min_score
           = Inr (\<lambda>i. if i \<le> length (line_input r) then Some i else None)
     \<and> update_sequence (line_input r) (line_input r) output_prob score
           (\<lambda>i. if i \<le> length (line_input r) then Some i else None)
           (textequiv_starts r) (word_starts r) (textline_starts r)
         = Inr (rescore output_prob 0 ls)
     \<and> map (\<lambda>e. Unicode (fst e)) (rescore output_prob 0 ls) = map (\<lambda>e. Unicode (fst e)) ls
     \<and> map (\<lambda>e. index (fst e)) (rescore output_prob 0 ls) = map (\<lambda>e. index (fst e)) ls
     \<and> map snd (rescore output_prob 0 ls) = map snd ls"
proof -
  from ext have r: "r = line_strings_of gap ls"
    by (simp add: line_sequences2string_sequences_eq split: if_splits)
  from nonempty obtain e es where ls: "ls = e # es" and e: "Unicode (fst e) \<noteq> []"
    by (cases ls) auto
  have "gap_subst gap (fst e) = fst e" using e by (simp add: gap_subst_def)
  with e have n: "1 \<le> length (line_input r)"
    by (simp add: r ls line_strings_of_def Let_def Suc_le_eq)
  note a = alignment2path_identity [OF id th n]
  have "\<forall>i \<le> length (line_input (line_strings_of gap ls)).
      (\<lambda>i. if i \<le> length (line_input r) then Some i else None) i = Some i"
    by (simp add: r)
  from update_sequence_identity [OF nonempty(2) clean ws line this, of output_prob score]
  have b: "update_sequence (line_input r) (line_input r) output_prob score
           (\<lambda>i. if i \<le> length (line_input r) then Some i else None)
           (textequiv_starts r) (word_starts r) (textline_starts r)
         = Inr (rescore output_prob 0 ls)"
    by (simp add: r)
  from a b rescore_content [of output_prob 0 ls] show ?thesis by simp
qed

text \<open>
  The claim as stated fails.  For the line \<open>a\<close> corrected to itself with output
  probabilities of one, the word's confidence \<open>0.5\<close> becomes \<open>1\<close>.  For a line whose
  word \<open>a\<close> ends with a space, corrected to itself along the identity path, the space
  moves from the word to the implicit newline element, so the contents change as well.
\<close>

theorem identity_correction_changes_spans:
  "(case alignment2path ex_alignment_id 2 2 0 of
      Inl e \<Rightarrow> False
    | Inr path \<Rightarrow>
        update_sequence [97, 10] [97, 10] [1, 1] 0 path ex_a ex_a_words ex_a_words
        = Inr [(\<lparr>Unicode = [97], conf = Some 1, index = None\<rparr>, Some 1, Some 1),
               (\<lparr>Unicode = [10], conf = Some 1, index = Some (- 1)\<rparr>, Some 1, Some 1)])
   \<and> conf (snd (ex_a ! 0)) = Some (1 / 2)
   \<and> update_sequence [97, 32, 10] [97, 32, 10] [1, 1, 1] 0 [0 \<mapsto> 0, 1 \<mapsto> 1, 2 \<mapsto> 2, 3 \<mapsto> 3]
        [(0, \<lparr>Unicode = [97, 32], conf = Some 1, index = None\<rparr>),
         (2, \<lparr>Unicode = [10], conf = Some 1, index = Some (- 1)\<rparr>)]
        [(0, Some (1::nat)), (2, Some 1)] [(0, Some (1::nat)), (2, Some 1)]
      = Inr [(\<lparr>Unicode = [97], conf = Some 1, index = None\<rparr>, Some 1, Some 1),
             (\<lparr>Unicode = [32, 10], conf = Some 1, index = Some (- 1)\<rparr>, Some 1, Some 1)]"
  by code_simp

theorem identity_correction_witness:
  "line_sequences2string_sequences Map.empty 7 [ex_line_sequence] = Inr [ex_line_strings]
   \<and> identity_like ex_alignment_id 2 0
   \<and> alignment2path ex_alignment_id 2 2 0 = Inr (\<lambda>i. if i \<le> 2 then Some i else None)
   \<and> update_sequence [97, 10] [97, 10] [1 / 4, 1] 0 (\<lambda>i. if i \<le> 2 then Some i else None)
        ex_a ex_a_words ex_a_words
      = Inr [(\<lparr>Unicode = [97], conf = Some (1 / 4), index = None\<rparr>, Some 1, Some 1),
             (\<lparr>Unicode = [10], conf = Some 1, index = Some (- 1)\<rparr>, Some 1, Some 1)]"
proof -
  have ext: "line_sequences2string_sequences Map.empty 7 [ex_line_sequence]
      = Inr [ex_line_strings]"
    by code_simp
  have fields: "line_input ex_line_strings = [97, 10]" "textequiv_starts ex_line_strings = ex_a"
    "word_starts ex_line_strings = ex_a_words" "textline_starts ex_line_strings = ex_a_words"
    by (simp_all add: ex_line_strings_def)
  have ne: "ex_line_sequence \<noteq> []" "\<forall>e \<in> set ex_line_sequence. Unicode (fst e) \<noteq> []"
    by (simp_all add: ex_line_sequence_def)
  have clean: "\<forall>e \<in> set ex_line_sequence. clean_span (Unicode (fst e))"
    by (simp add: ex_line_sequence_def clean_span_def ends_ws_def SP_def NL_def)
  have ws: "\<forall>e \<in> set ex_line_sequence.
      index (fst e) = Some (- 1) \<longrightarrow> \<not> has_token (Unicode (fst e))"
    by (simp add: ex_line_sequence_def has_token_def isspace_def)
  have line: "list_ex (\<lambda>e. snd (snd e) \<noteq> None) ex_line_sequence"
    by (simp add: ex_line_sequence_def)
  have id: "identity_like ex_alignment_id 2 0"
    by (auto simp: identity_like_def covers_def ex_alignment_id_def less_2_cases_iff)
  have l2: "length (line_input ex_line_strings) = 2"
    by (simp add: fields)
  from id have id': "identity_like ex_alignment_id (length (line_input ex_line_strings)) 0"
    by (simp only: l2)
  have res: "rescore [1 / 4, 1] 0 ex_line_sequence
      = [(\<lparr>Unicode = [97], conf = Some (1 / 4), index = None\<rparr>, Some 1, Some 1),
         (\<lparr>Unicode = [10], conf = Some 1, index = Some (- 1)\<rparr>, Some 1, Some 1)]"
    by (simp add: ex_line_sequence_def slice_def mean_def)
  from identity_correction [OF ext ne clean ws line id', of "[1 / 4, 1]" 0, unfolded l2] ext id
  show ?thesis
    by (simp add: fields res)
qed

section \<open>Properties of the propagation to higher levels\<close>

text \<open>
  For a list of numbers that is not empty, \<open>np_mean\<close> is the arithmetic mean; the new
  text result of a word holds the concatenation of the contents of its glyphs.
\<close>

lemma np_sum_numbers: "np_sum (map (\<lambda>r. Some (Num r)) xs) = Inr (Num (sum_list xs))"
  by (induction xs) simp_all

lemma np_mean_numbers:
  "xs \<noteq> [] \<Longrightarrow> np_mean (map (\<lambda>r. Some (Num r)) xs) = Inr (Num (sum_list xs / real (length xs)))"
  by (simp add: np_mean_def np_sum_numbers)

lemma update_word_content:
  "update_word word = Inr word'
   \<Longrightarrow> map pte_Unicode (TextEquiv word')
       = [concat (map (\<lambda>glyph. first_unicode (glyph_TextEquiv glyph)) (Glyph word))]"
  by (auto simp: update_word_def Let_def split: sum.splits)

text \<open>
  The line \<open>the cat\<close> at the level of words, with confidences \<open>0.9\<close> and \<open>0.8\<close>: the
  line and the region get the content \<open>the cat\<close> and the confidence \<open>0.85\<close>.
\<close>

lemma propagation_example:
  "page_update_higher_textequiv_levels LevelWord ex_page =
     Inr [\<lparr>region_TextLine =
         [\<lparr>line_Word = [ex_page_word ''w1'' [116, 104, 101] (9 / 10) [],
                         ex_page_word ''w2'' [99, 97, 116] (8 / 10) []],
           line_TextEquiv = [\<lparr>pte_Unicode = [116, 104, 101, 32, 99, 97, 116],
                              pte_conf = Some (Num (85 / 100))\<rparr>]\<rparr>],
       region_TextEquiv = [\<lparr>pte_Unicode = [116, 104, 101, 32, 99, 97, 116],
                              pte_conf = Some (Num (85 / 100))\<rparr>]\<rparr>]"
  by code_simp

text \<open>
  Claim C9.  The confidence of a level should be the mean of the confidences of its
  children, and \<open>1.0\<close> where there are none.  The code has the default \<open>1.0\<close> only for
  a child without a text result; for an element without children it takes the mean of
  the empty list.  At the level of glyphs, a word without glyphs next to a word with
  the glyph \<open>a\<close> of confidence \<open>0.5\<close> gets the confidence \<open>nan\<close> instead of \<open>1.0\<close>, and
  so do its line and its region, instead of \<open>0.75\<close>.  The contents are as claimed.
\<close>

theorem glyphless_word_confidence_nan:
  "page_update_higher_textequiv_levels LevelGlyph ex_page_glyphs =
     Inr [\<lparr>region_TextLine =
         [\<lparr>line_Word =
              [\<lparr>word_id = ''w1'', Coords = None, language = None, TextStyle = None,
                Glyph = [\<lparr>glyph_TextEquiv = [\<lparr>pte_Unicode = [97], pte_conf = Some (Num (1 / 2))\<rparr>]\<rparr>],
                TextEquiv = [\<lparr>pte_Unicode = [97], pte_conf = Some (Num (1 / 2))\<rparr>]\<rparr>,
               \<lparr>word_id = ''w2'', Coords = None, language = None, TextStyle = None,
                Glyph = [], TextEquiv = [\<lparr>pte_Unicode = [], pte_conf = Some NaN\<rparr>]\<rparr>],
           line_TextEquiv = [\<lparr>pte_Unicode = [97, 32], pte_conf = Some NaN\<rparr>]\<rparr>],
       region_TextEquiv = [\<lparr>pte_Unicode = [97, 32], pte_conf = Some NaN\<rparr>]\<rparr>]
   \<and> np_mean [] = Inr NaN"
  by code_simp

section \<open>Properties of the resegmenter\<close>

text \<open>
  A single merge: with the space between \<open>b\<close> and \<open>c\<close> deleted, the line holds the word
  \<open>a\<close> and the merged word with the content \<open>bc\<close>, the product of the confidences and
  the box around both words.
\<close>

lemma single_merge:
  "(case resegment_sequence LevelWord ex_sequence (ex_store [32] (1 / 2)) of
      Inl e \<Rightarrow> False
    | Inr st \<Rightarrow>
        line_contents st 0
          = [(''A'', [([97], Some (1 / 2))]), (''B.C'', [([98, 99], Some (1 / 4))])]
        \<and> map Coords (map (\<lambda>w. word_objs st ! w) (line_words st ! 0))
          = [Some [(0, 0), (10, 0), (10, 10), (0, 10)],
             Some [(20, 0), (50, 0), (50, 10), (20, 10)]])"
  by code_simp

text \<open>
  Such a sequence arises: for the line \<open>a b c\<close> corrected to \<open>abc\<close>, the path of the
  aligner leaves both spaces without output, and \<open>_update_sequence\<close> returns the three
  words with their contents and the two implicit spaces with empty content.
\<close>

lemma chained_deletion_sequence:
  "(case alignment2path ex_alignment_abc 6 4 0 of
      Inl e \<Rightarrow> False
    | Inr path \<Rightarrow>
        update_sequence [97, 32, 98, 32, 99, 10] [97, 98, 99, 10] [1 / 2, 1 / 2, 1 / 2, 1] 0 path
          ex_abc ex_abc_words ex_abc_lines
        = Inr [(\<lparr>Unicode = [97], conf = Some 1, index = None\<rparr>, Some 0, Some 0),
               (\<lparr>Unicode = [], conf = Some 1, index = Some (- 1)\<rparr>, Some 1, Some 0),
               (\<lparr>Unicode = [98], conf = Some 1, index = None\<rparr>, Some 1, Some 0),
               (\<lparr>Unicode = [], conf = Some 1, index = Some (- 1)\<rparr>, Some 2, Some 0),
               (\<lparr>Unicode = [99], conf = Some (1 / 2), index = None\<rparr>, Some 2, Some 0),
               (\<lparr>Unicode = [10], conf = Some 1, index = Some (- 1)\<rparr>, Some 2, Some 0)])"
  by code_simp

text \<open>
  Claim C8.  For every deleted implicit space between two words, the two words should
  be replaced in the list of words of the line by the merged word, whose content is
  the concatenation and whose confidence is the product.  The code does so for a
  single merge, but not for two merges in a row.  With both spaces deleted, the first
  merge puts \<open>A.B\<close> in the place of \<open>A\<close> and drops \<open>B\<close>; the second merges \<open>B\<close> and \<open>C\<close>,
  but \<open>B\<close> is no longer in the list, so the merged word is not put in, and \<open>C\<close> is
  dropped: the line is left with \<open>ab\<close>, and \<open>c\<close> is lost.  Moreover the confidences are
  not multiplied when one of them is zero: merging \<open>b\<close> of confidence \<open>0.5\<close> with \<open>c\<close> of
  confidence \<open>0.0\<close> leaves \<open>0.5\<close>.
\<close>

theorem chained_merges_lose_word:
  "line_contents (ex_store [] (1 / 2)) 0
     = [(''A'', [([97], Some (1 / 2))]), (''B'', [([98], Some (1 / 2))]),
        (''C'', [([99], Some (1 / 2))])]
   \<and> (case resegment_sequence LevelWord ex_sequence (ex_store [] (1 / 2)) of
        Inl e \<Rightarrow> False
      | Inr st \<Rightarrow> line_contents st 0 = [(''A.B'', [([97, 98], Some (1 / 4))])])
   \<and> (case resegment_sequence LevelWord ex_sequence (ex_store [32] 0) of
        Inl e \<Rightarrow> False
      | Inr st \<Rightarrow>
          line_contents st 0
            = [(''A'', [([97], Some (1 / 2))]), (''B.C'', [([98, 99], Some (1 / 2))])])"
  by code_simp

end
